theory Spec2Isabelle
  imports Main "HOL-Library.Sublist" "HOL-Library.AList" "HOL-Library.Multiset"
begin

section \<open>JavaScript strings\<close>

text \<open>
  A JavaScript string is a sequence of UTF-16 code units. The parser's output contains
  characters outside Latin-1 (Greek letters, U+2011, U+2026), so a code unit is an integer
  here (between 0 and 65535) and not an 8-bit \<open>char\<close>. \<open>js\<close> turns an ASCII literal into
  such a string.
\<close>

type_synonym jsstring = "int list"

definition js :: "string \<Rightarrow> jsstring" where
  "js s = map of_char s"

text \<open>The characters that cannot be written inside an Isabelle string literal.\<close>

definition backslash :: int where "backslash = 92"
definition dquote :: int where "dquote = 34"
definition newline :: int where "newline = 10"
definition space :: int where "space = 32"

text \<open>
  \<open>String.prototype.startsWith\<close> and \<open>String.prototype.includes\<close> (here
  \<open>includesStr\<close>) with a string argument.
\<close>

definition startsWith :: "jsstring \<Rightarrow> jsstring \<Rightarrow> bool" where
  "startsWith s p = prefix p s"

fun includesStr :: "jsstring \<Rightarrow> jsstring \<Rightarrow> bool" where
  "includesStr [] p = (p = [])"
| "includesStr (c # cs) p = (if prefix p (c # cs) then True else includesStr cs p)"

text \<open>
  \<open>s.replace(pat, rep)\<close> with a string pattern replaces the first occurrence only;
  \<open>s.replace(/pat/g, rep)\<close> with a literal pattern replaces every occurrence, scanning
  from the left and resuming after each match. Every pattern in the source is non-empty,
  and no replacement text contains \<open>$\<close>.
\<close>

fun replaceFirst :: "jsstring \<Rightarrow> jsstring \<Rightarrow> jsstring \<Rightarrow> jsstring" where
  "replaceFirst pat rep [] = (if pat = [] then rep else [])"
| "replaceFirst pat rep (c # cs) =
     (if prefix pat (c # cs) then rep @ drop (length pat) (c # cs)
      else c # replaceFirst pat rep cs)"

function replaceAll :: "jsstring \<Rightarrow> jsstring \<Rightarrow> jsstring \<Rightarrow> jsstring" where
  "replaceAll pat rep [] = []"
| "replaceAll pat rep (c # cs) =
     (if pat \<noteq> [] \<and> prefix pat (c # cs)
      then rep @ replaceAll pat rep (drop (length pat) (c # cs))
      else c # replaceAll pat rep cs)"
  by pat_completeness auto
termination
  by (relation "measure (\<lambda>(pat, rep, s). length s)") (auto simp: neq_Nil_conv)

text \<open>
  White space as \<open>String.prototype.trim\<close> and the regular expression class \<open>\s\<close>
  see it: the ECMAScript WhiteSpace and LineTerminator code points.
\<close>

definition is_ws :: "int \<Rightarrow> bool" where
  "is_ws c = (c \<in> {9, 10, 11, 12, 13, 32, 160, 5760, 8232, 8233, 8239, 8287, 12288, 65279}
              \<or> (8192 \<le> c \<and> c \<le> 8202))"

definition trim :: "jsstring \<Rightarrow> jsstring" where
  "trim s = rev (dropWhile is_ws (rev (dropWhile is_ws s)))"

text \<open>
  \<open>s.split(sep)\<close> for a one-character separator: the empty string splits into one
  empty piece. \<open>xs.join(sep)\<close> for a one-character separator.
\<close>

fun split :: "int \<Rightarrow> jsstring \<Rightarrow> jsstring list" where
  "split sep [] = [[]]"
| "split sep (c # cs) =
     (if c = sep then [] # split sep cs
      else (case split sep cs of [] \<Rightarrow> [[c]] | w # ws \<Rightarrow> (c # w) # ws))"

fun join :: "int \<Rightarrow> jsstring list \<Rightarrow> jsstring" where
  "join sep [] = []"
| "join sep [x] = x"
| "join sep (x # y # ys) = x @ sep # join sep (y # ys)"

section \<open>The parser (src/parser.js)\<close>

subsection \<open>normalizeKeySequence\<close>

text \<open>
  The three chained groups of global replacements of \<open>LyXParser.normalizeKeySequence\<close>,
  in the order of the source.
\<close>

definition normalizeModifiers :: "jsstring \<Rightarrow> jsstring" where
  "normalizeModifiers keySequence =
     replaceAll (js ''A-'') (js ''Alt+'')
       (replaceAll (js ''S-'') (js ''Shift+'')
         (replaceAll (js ''C-'') (js ''Ctrl+'')
           (replaceAll (js ''M-'') (js ''Alt+'') keySequence)))"

definition normalizeSpecialKeys :: "jsstring \<Rightarrow> jsstring" where
  "normalizeSpecialKeys normalized =
     replaceAll (js ''End'') (js ''End'')
      (replaceAll (js ''Home'') (js ''Home'')
       (replaceAll (js ''Next'') (js ''PageDown'')
        (replaceAll (js ''Prior'') (js ''PageUp'')
         (replaceAll (js ''Right'') (js ''ArrowRight'')
          (replaceAll (js ''Left'') (js ''ArrowLeft'')
           (replaceAll (js ''Down'') (js ''ArrowDown'')
            (replaceAll (js ''Up'') (js ''ArrowUp'')
             (replaceAll (js ''Escape'') (js ''Escape'')
              (replaceAll (js ''Tab'') (js ''Tab'')
               (replaceAll (js ''Delete'') (js ''Delete'')
                (replaceAll (js ''BackSpace'') (js ''Backspace'')
                 (replaceAll (js ''Return'') (js ''Enter'')
                  (replaceAll (js ''space'') (js ''Space'') normalized)))))))))))))"

definition stripNegatedModifiers :: "jsstring \<Rightarrow> jsstring" where
  "stripNegatedModifiers normalized =
     replaceAll (js ''~M-'') []
       (replaceAll (js ''~C-'') []
         (replaceAll (js ''~S-'') [] normalized))"

definition normalizeKeySequence :: "jsstring \<Rightarrow> jsstring" where
  "normalizeKeySequence keySequence =
     stripNegatedModifiers (normalizeSpecialKeys (normalizeModifiers keySequence))"

subsection \<open>parseCommand\<close>

text \<open>
  The text of an insert action is a string, with one exception that the source allows:
  \<open>symbolMap[symbol] || symbol\<close> reads a plain object, so a symbol that names a member
  of \<open>Object.prototype\<close> (\<open>constructor\<close>, \<open>toString\<close>, ...) yields that member, a truthy
  value that is not a string. \<open>Inherited name\<close> stands for it.
\<close>

datatype jstext = Str jsstring | Inherited jsstring

datatype action = Insert jstext | Command jsstring

definition symbolMap :: "(jsstring \<times> int) list" where
  "symbolMap =
     [(js ''alpha'', 945), (js ''beta'', 946), (js ''gamma'', 947), (js ''delta'', 948),
      (js ''epsilon'', 949), (js ''zeta'', 950), (js ''eta'', 951), (js ''theta'', 952),
      (js ''iota'', 953), (js ''kappa'', 954), (js ''lambda'', 955), (js ''mu'', 956),
      (js ''nu'', 957), (js ''xi'', 958), (js ''pi'', 960), (js ''rho'', 961),
      (js ''sigma'', 963), (js ''tau'', 964), (js ''upsilon'', 965), (js ''phi'', 966),
      (js ''chi'', 967), (js ''psi'', 968), (js ''omega'', 969), (js ''sum'', 8721),
      (js ''int'', 8747), (js ''infty'', 8734), (js ''pm'', 177), (js ''neq'', 8800),
      (js ''leq'', 8804), (js ''geq'', 8805)]"

definition objectPrototypeMembers :: "jsstring list" where
  "objectPrototypeMembers =
     [js ''constructor'', js ''__defineGetter__'', js ''__defineSetter__'',
      js ''hasOwnProperty'', js ''__lookupGetter__'', js ''__lookupSetter__'',
      js ''isPrototypeOf'', js ''propertyIsEnumerable'', js ''toString'', js ''valueOf'',
      js ''__proto__'', js ''toLocaleString'']"

text \<open>The keys of the source's table all start with a backslash; the table above omits it.\<close>

definition convertLaTeXSymbol :: "jsstring \<Rightarrow> jstext" where
  "convertLaTeXSymbol symbol =
     (if symbol = backslash # js ''frac'' then Str (backslash # js ''frac{}{}'')
      else if symbol = backslash # js ''sqrt'' then Str (backslash # js ''sqrt{}'')
      else (case symbol of
              [] \<Rightarrow> Str symbol
            | c # name \<Rightarrow>
                (if c = backslash
                 then (case map_of symbolMap name of
                         Some u \<Rightarrow> Str [u]
                       | None \<Rightarrow> Str symbol)
                 else if symbol \<in> set objectPrototypeMembers then Inherited symbol
                 else Str symbol)))"

definition extractInsertText :: "jsstring \<Rightarrow> jsstring" where
  "extractInsertText command = join space (tl (split space command))"

definition handleQuoteInsert :: "jsstring \<Rightarrow> jsstring" where
  "handleQuoteInsert command =
     (if includesStr command (js ''inner'') then [dquote]
      else if includesStr command (js ''outer'') then [dquote]
      else [dquote])"

definition handleSpecialChar :: "jsstring \<Rightarrow> jsstring" where
  "handleSpecialChar command =
     (if includesStr command (js ''hyphenation'') then [173]
      else if includesStr command (js ''nobreakdash'') then [8209]
      else if includesStr command (js ''ligature-break'') then [8204]
      else if includesStr command (js ''end-of-sentence'') then js ''.''
      else if includesStr command (js ''dots'') then [8230]
      else [])"

definition parseCommand :: "jsstring \<Rightarrow> action" where
  "parseCommand command =
     (if startsWith command (js ''math-insert'')
      then Insert (convertLaTeXSymbol (trim (replaceFirst (js ''math-insert '') [] command)))
      else if includesStr command (js ''insert'')
      then Insert (Str (extractInsertText command))
      else if startsWith command (js ''self-insert'')
      then Insert (Str (trim (replaceFirst (js ''self-insert '') [] command)))
      else if startsWith command (js ''quote-insert'')
      then Insert (Str (handleQuoteInsert command))
      else if startsWith command (js ''specialchar-insert'')
      then Insert (Str (handleSpecialChar command))
      else Command command)"

subsection \<open>parseBindLine and parse\<close>

record binding =
  keySequence :: jsstring
  originalKeySequence :: jsstring
  command :: jsstring
  action :: action

text \<open>
  A JavaScript \<open>Map\<close> from strings to bindings: an association list in insertion order
  with unique keys. \<open>Map.prototype.set\<close> is \<open>AList.update\<close>: a present key keeps
  its place and gets the new value, an absent key is appended.
\<close>

type_synonym table = "(jsstring \<times> binding) list"

text \<open>
  The calls the parser makes to the log collaborator, one constructor per message
  template of the source, carrying the values the template interpolates.
\<close>

datatype log_entry =
    Debug_parsed_binding jsstring jsstring
  | Warn_failed_to_parse_line nat jsstring
  | Warn_invalid_bind_line_format jsstring
  | Info_parsed_count nat
  | Info_imported_count nat

text \<open>
  The regular expression \<open>/\\bind\s+"([^"]+)"\s+"([^"]+)"/\<close> is not anchored:
  \<open>line.match\<close> returns the leftmost match. At a given start the match is determined:
  \<open>\s+\<close> must take the whole run of white space, since the next item is a quote, and
  \<open>[^"]+\<close> must take everything up to the next quote.
\<close>

definition match_ws :: "jsstring \<Rightarrow> jsstring option" where
  "match_ws s =
     (case s of
        [] \<Rightarrow> None
      | c # cs \<Rightarrow> if is_ws c then Some (dropWhile is_ws cs) else None)"

definition match_quoted :: "jsstring \<Rightarrow> (jsstring \<times> jsstring) option" where
  "match_quoted s =
     (case s of
        [] \<Rightarrow> None
      | c # cs \<Rightarrow>
          if c = dquote
          then (let body = takeWhile (\<lambda>x. x \<noteq> dquote) cs;
                    rest = dropWhile (\<lambda>x. x \<noteq> dquote) cs
                in if body = [] then None
                   else (case rest of [] \<Rightarrow> None | q # after \<Rightarrow> Some (body, after)))
          else None)"

definition match_bind_at :: "jsstring \<Rightarrow> (jsstring \<times> jsstring) option" where
  "match_bind_at s =
     (if prefix (backslash # js ''bind'') s
      then (case match_ws (drop 5 s) of
              None \<Rightarrow> None
            | Some s1 \<Rightarrow>
               (case match_quoted s1 of
                  None \<Rightarrow> None
                | Some (k, s2) \<Rightarrow>
                   (case match_ws s2 of
                      None \<Rightarrow> None
                    | Some s3 \<Rightarrow>
                       (case match_quoted s3 of
                          None \<Rightarrow> None
                        | Some (c, s4) \<Rightarrow> Some (k, c)))))
      else None)"

fun bindRegex_match :: "jsstring \<Rightarrow> (jsstring \<times> jsstring) option" where
  "bindRegex_match [] = None"
| "bindRegex_match (c # cs) =
     (case match_bind_at (c # cs) of
        Some r \<Rightarrow> Some r
      | None \<Rightarrow> bindRegex_match cs)"

text \<open>
  \<open>parse\<close> calls \<open>parseBindLine\<close> inside \<open>try\<close>. The result type keeps a place for a
  thrown exception (\<open>Inl\<close>), which the handler of \<open>parse\<close> reports with the line number;
  the body of \<open>parseBindLine\<close> has no \<open>throw\<close> and applies only string operations that
  are defined on every string, so it always returns (\<open>Inr\<close>): a binding, or \<open>null\<close>
  after the warning for a line that does not match.
\<close>

datatype js_exception = Js_exception

definition parseBindLine :: "jsstring \<Rightarrow> js_exception + (binding option \<times> log_entry list)" where
  "parseBindLine line =
     (case bindRegex_match line of
        None \<Rightarrow> Inr (None, [Warn_invalid_bind_line_format line])
      | Some (keySeq, cmd) \<Rightarrow>
          Inr (Some \<lparr>keySequence = normalizeKeySequence keySeq,
                     originalKeySequence = keySeq,
                     command = cmd,
                     action = parseCommand cmd\<rparr>, []))"

text \<open>
  One iteration of the loop of \<open>parse\<close>: \<open>lineNumber\<close> is the counter after its
  increment, the state is \<open>this.bindings\<close> and the log written so far.
\<close>

definition parse_line ::
    "nat \<Rightarrow> jsstring \<Rightarrow> table \<times> log_entry list \<Rightarrow> table \<times> log_entry list" where
  "parse_line lineNumber line st =
     (let trimmed = trim line in
      if trimmed = [] \<or> startsWith trimmed (js ''#'') then st
      else if startsWith trimmed (backslash # js ''bind'')
      then (case parseBindLine trimmed of
              Inl e \<Rightarrow> (fst st, snd st @ [Warn_failed_to_parse_line lineNumber trimmed])
            | Inr (None, lg) \<Rightarrow> (fst st, snd st @ lg)
            | Inr (Some b, lg) \<Rightarrow>
                (AList.update (keySequence b) b (fst st),
                 snd st @ lg @ [Debug_parsed_binding (keySequence b) (command b)]))
      else st)"

fun parse_lines ::
    "jsstring list \<Rightarrow> nat \<Rightarrow> table \<times> log_entry list \<Rightarrow> table \<times> log_entry list" where
  "parse_lines [] lineNumber st = st"
| "parse_lines (line # lines) lineNumber st =
     parse_lines lines (lineNumber + 1) (parse_line (lineNumber + 1) line st)"

definition parse :: "jsstring \<Rightarrow> table \<times> log_entry list" where
  "parse content =
     (let st = parse_lines (split newline content) 0 ([], [])
      in (fst st, snd st @ [Info_parsed_count (length (fst st))]))"

subsection \<open>exportBindings and importBindings\<close>

text \<open>
  \<open>exportBindings\<close> fills a plain object \<open>{}\<close> by assignment \<open>exported[key] = value\<close>.
  A plain object has own properties and a prototype. Assigning to the key \<open>__proto__\<close>
  runs the setter inherited from \<open>Object.prototype\<close>: the value being an object (every
  binding is one), it becomes the prototype and no own property is created. Every other
  key creates or overwrites an own property. \<open>proto = None\<close> is \<open>Object.prototype\<close>.
\<close>

record js_object =
  proto :: "binding option"
  props :: table

definition empty_object :: js_object where
  "empty_object = \<lparr>proto = None, props = []\<rparr>"

definition object_set :: "jsstring \<Rightarrow> binding \<Rightarrow> js_object \<Rightarrow> js_object" where
  "object_set key v obj =
     (if key = js ''__proto__'' then obj\<lparr>proto := Some v\<rparr>
      else obj\<lparr>props := AList.update key v (props obj)\<rparr>)"

text \<open>
  \<open>Object.entries\<close> lists the own enumerable properties: first the keys that are array
  indices (canonical decimal numerals up to \<open>2^32 - 2\<close>) in ascending numeric order, then
  the other keys in the order of their creation.
\<close>

definition is_digit :: "int \<Rightarrow> bool" where
  "is_digit c = (48 \<le> c \<and> c \<le> 57)"

definition decimal :: "jsstring \<Rightarrow> int" where
  "decimal s = foldl (\<lambda>n c. 10 * n + (c - 48)) 0 s"

definition array_index :: "jsstring \<Rightarrow> int option" where
  "array_index s =
     (if s \<noteq> [] \<and> list_all is_digit s \<and> (s = js ''0'' \<or> hd s \<noteq> 48)
         \<and> length s \<le> 10 \<and> decimal s \<le> 4294967294
      then Some (decimal s) else None)"

definition index_key :: "jsstring \<times> binding \<Rightarrow> int" where
  "index_key p = (case array_index (fst p) of Some n \<Rightarrow> n | None \<Rightarrow> 0)"

definition object_entries :: "js_object \<Rightarrow> table" where
  "object_entries obj =
     sort_key index_key (filter (\<lambda>p. array_index (fst p) \<noteq> None) (props obj))
     @ filter (\<lambda>p. array_index (fst p) = None) (props obj)"

text \<open>\<open>new Map(entries)\<close> and the loop of \<open>importBindings\<close>: \<open>set\<close> for each entry in turn.\<close>

definition Map_of_entries :: "table \<Rightarrow> table" where
  "Map_of_entries entries = fold (\<lambda>(k, v). AList.update k v) entries []"

definition exportBindings :: "table \<Rightarrow> js_object" where
  "exportBindings bindings = fold (\<lambda>(key, v). object_set key v) bindings empty_object"

definition importBindings :: "js_object \<Rightarrow> table \<times> log_entry list" where
  "importBindings exported =
     (let bindings = Map_of_entries (object_entries exported)
      in (bindings, [Info_imported_count (length bindings)]))"

section \<open>The hotkey manager (src/hotkeyManager.js)\<close>

subsection \<open>Conflict detection\<close>

text \<open>
  The loop of \<open>hasConflict\<close> over the positions below \<open>minLength\<close>, leaving with
  \<open>false\<close> at the first difference.
\<close>

fun equal_at_shared_positions :: "jsstring list \<Rightarrow> jsstring list \<Rightarrow> bool" where
  "equal_at_shared_positions (p # ps) (q # qs) =
     (if p \<noteq> q then False else equal_at_shared_positions ps qs)"
| "equal_at_shared_positions ps qs = True"

definition hasConflict :: "jsstring \<Rightarrow> jsstring \<Rightarrow> bool" where
  "hasConflict seq1 seq2 =
     (let parts1 = split space seq1; parts2 = split space seq2
      in if equal_at_shared_positions parts1 parts2
         then length parts1 \<noteq> length parts2
         else False)"

text \<open>
  A JavaScript \<open>Set\<close> of strings is a list without repetition in insertion order;
  \<open>Set.prototype.add\<close> appends an absent element.
\<close>

definition Set_add :: "jsstring \<Rightarrow> jsstring list \<Rightarrow> jsstring list" where
  "Set_add x xs = (if x \<in> set xs then xs else xs @ [x])"

definition conflict_description :: "jsstring \<Rightarrow> jsstring \<Rightarrow> jsstring" where
  "conflict_description seq1 seq2 = seq1 @ js '' <-> '' @ seq2"

text \<open>The inner loop (over \<open>j\<close>) and the outer loop (over \<open>i\<close>) of \<open>detectConflicts\<close>.\<close>

fun detect_inner :: "jsstring \<Rightarrow> jsstring list \<Rightarrow> jsstring list \<Rightarrow> jsstring list" where
  "detect_inner seq1 [] cs = cs"
| "detect_inner seq1 (seq2 # later) cs =
     detect_inner seq1 later
       (if hasConflict seq1 seq2 then Set_add (conflict_description seq1 seq2) cs else cs)"

fun detect_outer :: "jsstring list \<Rightarrow> jsstring list \<Rightarrow> jsstring list" where
  "detect_outer [] cs = cs"
| "detect_outer (seq1 # later) cs = detect_outer later (detect_inner seq1 later cs)"

definition detectConflicts :: "table \<Rightarrow> jsstring list" where
  "detectConflicts bindings = detect_outer (map fst bindings) []"

text \<open>
  The pairs for which the loops call \<open>conflicts.add\<close>, in the order of the calls: the
  first component is the sequence registered earlier.
\<close>

fun flagged_pairs :: "jsstring list \<Rightarrow> (jsstring \<times> jsstring) list" where
  "flagged_pairs [] = []"
| "flagged_pairs (seq1 # later) =
     map (Pair seq1) (filter (hasConflict seq1) later) @ flagged_pairs later"

subsection \<open>Key events\<close>

text \<open>
  A keyboard event: the modifier flags, \<open>event.key\<close>, and \<open>event.target\<close> given as the
  target element followed by its chain of \<open>parentElement\<close>s (\<open>[]\<close> is a null target).
\<close>

record element =
  tagName :: jsstring
  contentEditable :: jsstring

record key_event =
  ctrlKey :: bool
  altKey :: bool
  shiftKey :: bool
  metaKey :: bool
  key :: jsstring
  target :: "element list"

fun parent_editable :: "element list \<Rightarrow> bool" where
  "parent_editable [] = False"
| "parent_editable (parent # ancestors) =
     (if contentEditable parent = js ''true'' then True else parent_editable ancestors)"

definition isEditableContext :: "element list \<Rightarrow> bool" where
  "isEditableContext tgt =
     (case tgt of
        [] \<Rightarrow> False
      | t # ancestors \<Rightarrow>
          if tagName t = js ''INPUT'' \<or> tagName t = js ''TEXTAREA'' then True
          else if contentEditable t = js ''true'' then True
          else parent_editable ancestors)"

definition isSpecialKey :: "key_event \<Rightarrow> bool" where
  "isSpecialKey ev = (altKey ev \<or> ctrlKey ev)"

text \<open>
  \<open>eventToKeyString\<close>. \<open>String.prototype.toLowerCase\<close> depends on the Unicode case
  tables, which are not part of the repository: it is the parameter \<open>toLowerCase\<close>.
\<close>

definition is_upper :: "int \<Rightarrow> bool" where
  "is_upper c = (65 \<le> c \<and> c \<le> 90)"

definition is_lower :: "int \<Rightarrow> bool" where
  "is_lower c = (97 \<le> c \<and> c \<le> 122)"

definition eventToKeyString :: "(jsstring \<Rightarrow> jsstring) \<Rightarrow> key_event \<Rightarrow> jsstring" where
  "eventToKeyString toLowerCase ev =
     (let parts = (if ctrlKey ev then [js ''Ctrl''] else [])
                  @ (if altKey ev then [js ''Alt''] else [])
                  @ (if shiftKey ev then [js ''Shift''] else [])
                  @ (if metaKey ev then [js ''Meta''] else []);
          k = (if key ev = [space] then js ''Space'' else key ev);
          k' = (if length k = 1
                then (if shiftKey ev \<and> list_ex is_upper k then k
                      else if \<not> shiftKey ev \<and> list_ex is_lower k then k
                      else toLowerCase k)
                else k)
      in join 43 (parts @ [k']))"

subsection \<open>The manager and the host's timers\<close>

text \<open>
  The fields of \<open>HotkeyManager\<close>, and the two facts about the host's scheduler that the
  manager depends on: which of the timers set by the manager are armed (\<open>setTimeout\<close>
  was called and the callback has neither run nor been cleared), and the next handle
  \<open>setTimeout\<close> will return (handles are positive and never reused; other code of the
  page takes handles too). \<open>saveSettings\<close> writes to the external settings store and
  changes no field: it has no part here.
\<close>

record world =
  bindings :: table
  currentSequence :: "jsstring list"
  sequenceTimeout :: int
  timeoutId :: "nat option"
  enabled :: bool
  conflicts :: "jsstring list"
  armed :: "nat set"
  nextTimerId :: nat

definition new_HotkeyManager :: world where
  "new_HotkeyManager =
     \<lparr>bindings = [], currentSequence = [], sequenceTimeout = 1500, timeoutId = None,
      enabled = True, conflicts = [], armed = {}, nextTimerId = 1\<rparr>"

text \<open>\<open>if (this.timeoutId)\<close> is false for \<open>null\<close> and for the number 0.\<close>

definition clearSequenceTimeout :: "world \<Rightarrow> world" where
  "clearSequenceTimeout w =
     (case timeoutId w of
        None \<Rightarrow> w
      | Some t \<Rightarrow> if t = 0 then w else w\<lparr>armed := armed w - {t}, timeoutId := None\<rparr>)"

definition startSequenceTimeout :: "world \<Rightarrow> world" where
  "startSequenceTimeout w =
     (let w1 = clearSequenceTimeout w; t = nextTimerId w1
      in w1\<lparr>armed := insert t (armed w1), nextTimerId := t + 1, timeoutId := Some t\<rparr>)"

definition resetSequence :: "world \<Rightarrow> world" where
  "resetSequence w = clearSequenceTimeout (w\<lparr>currentSequence := []\<rparr>)"

text \<open>The host runs the callback of an armed timer: the timer is spent, the callback resets.\<close>

definition timer_fires :: "nat \<Rightarrow> world \<Rightarrow> world" where
  "timer_fires t w =
     (if t \<in> armed w then resetSequence (w\<lparr>armed := armed w - {t}\<rparr>) else w)"

definition setSequenceTimeout :: "int \<Rightarrow> world \<Rightarrow> world" where
  "setSequenceTimeout timeout w = w\<lparr>sequenceTimeout := max 500 (min 5000 timeout)\<rparr>"

definition setEnabled :: "bool \<Rightarrow> world \<Rightarrow> world" where
  "setEnabled b w = (let w1 = w\<lparr>enabled := b\<rparr> in if b then w1 else resetSequence w1)"

definition loadBindings :: "table \<Rightarrow> world \<Rightarrow> world" where
  "loadBindings tbl w =
     (let w1 = w\<lparr>bindings := Map_of_entries tbl\<rparr>
      in w1\<lparr>conflicts := detectConflicts (bindings w1)\<rparr>)"

definition stopListening :: "world \<Rightarrow> world" where
  "stopListening w = resetSequence w"

text \<open>
  \<open>loadSettings\<close>, once the storage has answered with the stored values (absent ones
  are \<open>None\<close>): \<open>result.sequenceTimeout || 1500\<close> and \<open>result.hotkeyEnabled !== false\<close>.
\<close>

definition loadSettings :: "int option \<Rightarrow> bool option \<Rightarrow> world \<Rightarrow> world" where
  "loadSettings storedTimeout storedEnabled w =
     w\<lparr>sequenceTimeout := (case storedTimeout of
                               None \<Rightarrow> 1500
                             | Some n \<Rightarrow> if n = 0 then 1500 else n),
       enabled := (storedEnabled \<noteq> Some False)\<rparr>"

fun hasMatchingPrefix_loop :: "jsstring list \<Rightarrow> jsstring \<Rightarrow> bool" where
  "hasMatchingPrefix_loop [] s = False"
| "hasMatchingPrefix_loop (b # bs) s =
     (if startsWith b (s @ [space]) then True else hasMatchingPrefix_loop bs s)"

definition hasMatchingPrefix :: "world \<Rightarrow> jsstring \<Rightarrow> bool" where
  "hasMatchingPrefix w s = hasMatchingPrefix_loop (map fst (bindings w)) s"

subsection \<open>executeAction and handleKeyDown\<close>

text \<open>
  What a call of \<open>handleKeyDown\<close> does to its surroundings, in order. The sink is
  \<open>window.LyXInserter.insertText\<close>; \<open>Sink_insertText\<close> records its two arguments and
  the manager's \<open>currentSequence\<close> at the moment of the call. The sink either returns or
  throws; \<open>None\<close> is a page without \<open>window.LyXInserter\<close>.
\<close>

datatype sink_result = Returns | Throws

type_synonym inserter = "(jstext \<Rightarrow> element list \<Rightarrow> sink_result) option"

datatype effect =
    Sink_insertText jstext "element list" "jsstring list"
  | Log_inserter_not_available
  | Log_executing_command jsstring
  | Log_action_executed jsstring
  | Log_failed_to_execute_action
  | Prevent_default_and_stop_propagation

definition executeAction :: "inserter \<Rightarrow> world \<Rightarrow> binding \<Rightarrow> key_event \<Rightarrow> effect list" where
  "executeAction ins w b ev =
     (case action b of
        Insert txt \<Rightarrow>
          (case ins of
             Some insertText \<Rightarrow>
               (case insertText txt (target ev) of
                  Returns \<Rightarrow> [Sink_insertText txt (target ev) (currentSequence w),
                               Log_action_executed (command b)]
                | Throws \<Rightarrow> [Sink_insertText txt (target ev) (currentSequence w),
                              Log_failed_to_execute_action])
           | None \<Rightarrow> [Log_inserter_not_available, Log_action_executed (command b)])
      | Command c \<Rightarrow> [Log_executing_command c, Log_action_executed (command b)])"

definition handleKeyDown ::
    "(jsstring \<Rightarrow> jsstring) \<Rightarrow> inserter \<Rightarrow> world \<Rightarrow> key_event \<Rightarrow> world \<times> effect list" where
  "handleKeyDown toLowerCase ins w ev =
     (if \<not> enabled w then (w, [])
      else if \<not> isEditableContext (target ev) \<and> \<not> isSpecialKey ev then (w, [])
      else (let keyString = eventToKeyString toLowerCase ev in
        if keyString = [] then (w, [])
        else (let w1 = w\<lparr>currentSequence := currentSequence w @ [keyString]\<rparr>;
                  currentSequenceString = join space (currentSequence w1)
              in case map_of (bindings w1) currentSequenceString of
                   Some exactMatch \<Rightarrow>
                     (resetSequence w1,
                      executeAction ins w1 exactMatch ev
                        @ [Prevent_default_and_stop_propagation])
                 | None \<Rightarrow>
                     if hasMatchingPrefix w1 currentSequenceString
                     then (startSequenceTimeout w1, [Prevent_default_and_stop_propagation])
                     else (resetSequence w1, []))))"

text \<open>The entry points through which the page and the host reach the manager.\<close>

datatype operation =
    KeyDown inserter key_event
  | TimerFires nat
  | SetEnabled bool
  | LoadBindings table
  | SetSequenceTimeout int
  | StopListening
  | SettingsLoaded "int option" "bool option"
  | HostTimerElsewhere

fun step :: "(jsstring \<Rightarrow> jsstring) \<Rightarrow> operation \<Rightarrow> world \<Rightarrow> world" where
  "step lc (KeyDown ins ev) w = fst (handleKeyDown lc ins w ev)"
| "step lc (TimerFires t) w = timer_fires t w"
| "step lc (SetEnabled b) w = setEnabled b w"
| "step lc (LoadBindings tbl) w = loadBindings tbl w"
| "step lc (SetSequenceTimeout n) w = setSequenceTimeout n w"
| "step lc StopListening w = stopListening w"
| "step lc (SettingsLoaded t e) w = loadSettings t e w"
| "step lc HostTimerElsewhere w = w\<lparr>nextTimerId := nextTimerId w + 1\<rparr>"

definition run :: "(jsstring \<Rightarrow> jsstring) \<Rightarrow> operation list \<Rightarrow> world \<Rightarrow> world" where
  "run lc ops w = fold (step lc) ops w"

text \<open>A lower-casing function for the examples: ASCII letters only.\<close>

definition ascii_toLowerCase :: "jsstring \<Rightarrow> jsstring" where
  "ascii_toLowerCase s = map (\<lambda>c. if is_upper c then c + 32 else c) s"

section \<open>Predicates and examples used in the properties\<close>

text \<open>
  An unordered pair of sequences is flagged when the loops of \<open>detectConflicts\<close> add
  it in one order or the other.
\<close>

definition flags :: "jsstring list \<Rightarrow> jsstring \<Rightarrow> jsstring \<Rightarrow> bool" where
  "flags keys a b = ((a, b) \<in> set (flagged_pairs keys) \<or> (b, a) \<in> set (flagged_pairs keys))"

text \<open>
  The correspondence between the pending tokens and the timer: tokens are pending
  exactly when the manager holds a timer handle, and the timers of the manager that are
  armed at the host are exactly that handle.
\<close>

definition timer_invariant :: "world \<Rightarrow> bool" where
  "timer_invariant w =
     ((currentSequence w \<noteq> []) = (timeoutId w \<noteq> None)
      \<and> (case timeoutId w of
            None \<Rightarrow> armed w = {}
          | Some t \<Rightarrow> armed w = {t} \<and> 0 < t \<and> t < nextTimerId w)
      \<and> 0 < nextTimerId w)"

text \<open>
  The scenario of the specification: three bindings under \<open>Alt+m\<close>, and a binding of
  the single key \<open>x\<close>; a text field; key presses in it; a sink that throws.
\<close>

definition bind_line :: "jsstring \<Rightarrow> jsstring \<Rightarrow> jsstring" where
  "bind_line keySpec commandSpec =
     backslash # js ''bind '' @ dquote # keySpec @ dquote # space # dquote # commandSpec @ [dquote]"

definition scenario_config :: jsstring where
  "scenario_config =
     bind_line (js ''M-m f'') (js ''math-insert '' @ backslash # js ''frac'')
     @ newline # bind_line (js ''M-m g a'') (js ''math-insert '' @ backslash # js ''alpha'')
     @ newline # bind_line (js ''M-m g'') (js ''math-insert '' @ backslash # js ''gamma'')
     @ newline # bind_line (js ''x'') (js ''self-insert x'')"

definition scenario_table :: table where
  "scenario_table = fst (parse scenario_config)"

definition input_field :: "element list" where
  "input_field = [\<lparr>tagName = js ''INPUT'', contentEditable = js ''inherit''\<rparr>]"

definition press :: "bool \<Rightarrow> string \<Rightarrow> key_event" where
  "press alt k =
     \<lparr>ctrlKey = False, altKey = alt, shiftKey = False, metaKey = False,
      key = js k, target = input_field\<rparr>"

definition throwing_sink :: inserter where
  "throwing_sink = Some (\<lambda>txt tgt. Throws)"

definition scenario_loaded :: world where
  "scenario_loaded = loadBindings scenario_table new_HotkeyManager"

definition scenario_pending :: world where
  "scenario_pending =
     fst (handleKeyDown ascii_toLowerCase throwing_sink scenario_loaded (press True ''m''))"

text \<open>
  The binding-line grammar, in the words of the specification: the directive keyword,
  then exactly two double-quoted fields, the key-spec and the command-spec, separated by
  white space, and nothing else; quotes cannot be escaped, so a field is a run of
  characters other than the double quote, and it is not empty (a key sequence is not).
  \<open>binding_pattern k c t\<close>: the text \<open>t\<close> is such a line, with the fields \<open>k\<close> and
  \<open>c\<close>. A binding directive is a line whose trimmed content starts with the keyword;
  it is malformed when its trimmed content is not a line of the grammar.
\<close>

definition ws_run :: "jsstring \<Rightarrow> bool" where
  "ws_run u = (u \<noteq> [] \<and> list_all is_ws u)"

definition quoted_field :: "jsstring \<Rightarrow> bool" where
  "quoted_field k = (k \<noteq> [] \<and> dquote \<notin> set k)"

definition binding_pattern :: "jsstring \<Rightarrow> jsstring \<Rightarrow> jsstring \<Rightarrow> bool" where
  "binding_pattern k c t =
     (\<exists>u v. ws_run u \<and> ws_run v \<and> quoted_field k \<and> quoted_field c
            \<and> t = (backslash # js ''bind'') @ u @ dquote # k @ dquote # v @ dquote # c @ [dquote])"

definition grammar_line :: "jsstring \<Rightarrow> bool" where
  "grammar_line t = (\<exists>k c. binding_pattern k c t)"

definition binding_directive :: "jsstring \<Rightarrow> bool" where
  "binding_directive line = startsWith (trim line) (backslash # js ''bind'')"

definition malformed :: "jsstring \<Rightarrow> bool" where
  "malformed line = (binding_directive line \<and> \<not> grammar_line (trim line))"

text \<open>
  The pattern of the grammar occurs somewhere in a text; and a binding directive in
  which it occurs nowhere (such a directive is malformed).
\<close>

definition pattern_occurs :: "jsstring \<Rightarrow> bool" where
  "pattern_occurs t = (\<exists>pre m post k c. t = pre @ m @ post \<and> binding_pattern k c m)"

definition directive_without_pattern :: "jsstring \<Rightarrow> bool" where
  "directive_without_pattern line = (binding_directive line \<and> \<not> pattern_occurs (trim line))"

text \<open>A replacement text with no white space in it, and not empty.\<close>

definition spaceless :: "jsstring \<Rightarrow> bool" where
  "spaceless rep = (rep \<noteq> [] \<and> \<not> list_ex is_ws rep)"

text \<open>
  The elements of a key-spec that white space separates: its maximal runs of characters
  that are not white space.
\<close>

fun ws_words :: "jsstring \<Rightarrow> jsstring list" where
  "ws_words [] = []"
| "ws_words [c] = (if is_ws c then [] else [[c]])"
| "ws_words (c # d # cs) =
     (if is_ws c then ws_words (d # cs)
      else if is_ws d then [c] # ws_words (d # cs)
      else (case ws_words (d # cs) of [] \<Rightarrow> [[c]] | w # ws \<Rightarrow> (c # w) # ws))"

text \<open>
  A string whose elements are separated by single spaces: it is not empty, it neither
  starts nor ends with white space, and its only white space is a space between two
  characters that are not white space.
\<close>

fun single_spaced :: "jsstring \<Rightarrow> bool" where
  "single_spaced [] = False"
| "single_spaced [c] = (\<not> is_ws c)"
| "single_spaced (c # d # cs) =
     (if is_ws c then False
      else if d = space then single_spaced cs
      else single_spaced (d # cs))"

text \<open>
  Configuration texts for the examples: one whose second line is a malformed directive
  without the pattern; a malformed directive that has a third field after the pattern;
  and a single well-formed line whose key-spec starts with a space and has two spaces
  between its elements.
\<close>

definition line_with_third_field :: jsstring where
  "line_with_third_field =
     bind_line (js ''a'') (js ''self-insert x'') @ space # dquote # js ''c'' @ [dquote]"

definition config_with_malformed_line :: jsstring where
  "config_with_malformed_line =
     js ''# comment'' @ newline # backslash # js ''bind oops''
     @ newline # bind_line (js ''M-m f'') (js ''math-insert '' @ backslash # js ''frac'')"

definition line_with_spaced_key_spec :: jsstring where
  "line_with_spaced_key_spec = bind_line (js '' a  b'') (js ''self-insert x'')"

text \<open>A configuration text that binds the key-spec \<open>__proto__\<close>.\<close>

definition proto_config :: jsstring where
  "proto_config = bind_line (js ''__proto__'') (js ''self-insert x'')"

section \<open>The observers and the objects they return\<close>

text \<open>
  \<open>getCurrentSequence\<close> and \<open>getConflicts\<close> return objects, which the caller is free to
  mutate. Whether such a mutation reaches the manager is a matter of references, so for
  these two methods the arrays and sets live in a store: a list of objects, a reference
  being a position in it. The manager holds a reference to the array \<open>currentSequence\<close>
  and a reference to the set \<open>conflicts\<close>; its other fields are the values of
  \<open>value_fields\<close>. \<open>manager_of\<close> is the state of the manager read through its
  references: the state on which every method above works.
\<close>

datatype heap_object = Array_object "jsstring list" | Set_object "jsstring list"

record heap_manager =
  objects :: "heap_object list"
  currentSequence_ref :: nat
  conflicts_ref :: nat
  value_fields :: world

definition elements_at :: "heap_object list \<Rightarrow> nat \<Rightarrow> jsstring list" where
  "elements_at objs r =
     (if r < length objs
      then (case objs ! r of Array_object xs \<Rightarrow> xs | Set_object xs \<Rightarrow> xs)
      else [])"

definition manager_of :: "heap_manager \<Rightarrow> world" where
  "manager_of h =
     (value_fields h)\<lparr>currentSequence := elements_at (objects h) (currentSequence_ref h),
                      conflicts := elements_at (objects h) (conflicts_ref h)\<rparr>"

text \<open>
  \<open>[...this.currentSequence]\<close> and \<open>new Set(this.conflicts)\<close> allocate a new object with
  the elements of the manager's own; the methods return the new reference.
\<close>

definition getCurrentSequence :: "heap_manager \<Rightarrow> nat \<times> heap_manager" where
  "getCurrentSequence h =
     (length (objects h),
      h\<lparr>objects := objects h
           @ [Array_object (elements_at (objects h) (currentSequence_ref h))]\<rparr>)"

definition getConflicts :: "heap_manager \<Rightarrow> nat \<times> heap_manager" where
  "getConflicts h =
     (length (objects h),
      h\<lparr>objects := objects h
           @ [Set_object (elements_at (objects h) (conflicts_ref h))]\<rparr>)"

text \<open>A mutation by the caller leaves some object \<open>obj\<close> at the reference \<open>r\<close> it holds.\<close>

definition caller_mutates :: "nat \<Rightarrow> heap_object \<Rightarrow> heap_manager \<Rightarrow> heap_manager" where
  "caller_mutates r obj h = h\<lparr>objects := (objects h)[r := obj]\<rparr>"

text \<open>The scenario's pending manager in a store, for the examples.\<close>

definition scenario_heap :: heap_manager where
  "scenario_heap =
     \<lparr>objects = [Array_object (currentSequence scenario_pending),
                 Set_object (conflicts scenario_pending)],
      currentSequence_ref = 0, conflicts_ref = 1, value_fields = scenario_pending\<rparr>"

text \<open>The character \<open>a\<close> occurs in \<open>s\<close> immediately followed by the character \<open>b\<close>.\<close>

fun adjacent :: "int \<Rightarrow> int \<Rightarrow> jsstring \<Rightarrow> bool" where
  "adjacent a b (x # y # zs) = (if x = a \<and> y = b then True else adjacent a b (y # zs))"
| "adjacent a b zs = False"

text \<open>
  No modifier letter \<open>S\<close>, \<open>C\<close> or \<open>M\<close> is followed by a hyphen; and a replacement
  text that cannot bring such a pair about.
\<close>

definition no_modifier_hyphen :: "jsstring \<Rightarrow> bool" where
  "no_modifier_hyphen s = (\<not> adjacent 83 45 s \<and> \<not> adjacent 67 45 s \<and> \<not> adjacent 77 45 s)"

definition harmless :: "jsstring \<Rightarrow> bool" where
  "harmless rep =
     (rep \<noteq> [] \<and> hd rep \<noteq> 45 \<and> last rep \<noteq> 83 \<and> last rep \<noteq> 67 \<and> last rep \<noteq> 77
      \<and> no_modifier_hyphen rep)"

section \<open>Properties of the parser\<close>

subsection \<open>Command dispatch\<close>

text \<open>\<open>includesStr\<close> is the substring relation.\<close>

lemma includesStr_iff: "includesStr s p \<longleftrightarrow> (\<exists>a b. s = a @ p @ b)"
proof (induction s)
  case Nil
  then show ?case by simp
next
  case (Cons c cs)
  show ?case
  proof
    assume "includesStr (c # cs) p"
    then consider "prefix p (c # cs)" | "includesStr cs p"
      by (auto split: if_splits)
    then show "\<exists>a b. c # cs = a @ p @ b"
    proof cases
      case 1
      then obtain b where "c # cs = p @ b" by (auto simp: prefix_def)
      then have "c # cs = [] @ p @ b" by simp
      then show ?thesis by blast
    next
      case 2
      with Cons.IH obtain a b where "cs = a @ p @ b" by blast
      then have "c # cs = (c # a) @ p @ b" by simp
      then show ?thesis by blast
    qed
  next
    assume "\<exists>a b. c # cs = a @ p @ b"
    then obtain a b where ab: "c # cs = a @ p @ b" by blast
    show "includesStr (c # cs) p"
    proof (cases a)
      case Nil
      with ab have "prefix p (c # cs)" by (simp add: prefix_def)
      then show ?thesis by simp
    next
      case (Cons a0 a')
      with ab have "cs = a' @ p @ b" by simp
      with Cons.IH have "includesStr cs p" by blast
      then show ?thesis by simp
    qed
  qed
qed

lemma includesStr_prefix_mono:
  assumes "prefix p s" and "includesStr p q"
  shows "includesStr s q"
proof -
  from assms(2) obtain a b where "p = a @ q @ b" by (auto simp: includesStr_iff)
  moreover from assms(1) obtain r where "s = p @ r" by (auto simp: prefix_def)
  ultimately have "s = a @ q @ (b @ r)" by simp
  then show ?thesis unfolding includesStr_iff by blast
qed

lemma quote_insert_includes_insert: "includesStr (js ''quote-insert'') (js ''insert'')"
  by code_simp
lemma specialchar_insert_includes_insert: "includesStr (js ''specialchar-insert'') (js ''insert'')"
  by code_simp
lemma self_insert_includes_insert: "includesStr (js ''self-insert'') (js ''insert'')"
  by code_simp
text \<open>
  Every command that starts with \<open>self-insert\<close>, \<open>quote-insert\<close> or
  \<open>specialchar-insert\<close> contains \<open>insert\<close>, so the second test of \<open>parseCommand\<close>
  takes it: the three tests after it never succeed.
\<close>

lemma parseCommand_reduced:
  "parseCommand cmd =
     (if startsWith cmd (js ''math-insert'')
      then Insert (convertLaTeXSymbol (trim (replaceFirst (js ''math-insert '') [] cmd)))
      else if includesStr cmd (js ''insert'')
      then Insert (Str (extractInsertText cmd))
      else Command cmd)"
  using includesStr_prefix_mono[OF _ quote_insert_includes_insert, of cmd]
        includesStr_prefix_mono[OF _ specialchar_insert_includes_insert, of cmd]
        includesStr_prefix_mono[OF _ self_insert_includes_insert, of cmd]
  by (auto simp: parseCommand_def startsWith_def)

text \<open>
  C1. The claim: every command starting with \<open>quote-insert\<close> compiles to an insertion
  of a double quote, and every command starting with \<open>specialchar-insert\<close> to the
  insertion of the special character its substring selects. The code at four such
  commands: the generic test for \<open>insert\<close> comes first in \<open>parseCommand\<close>, so the text
  inserted is the command without its first word (\<open>outer\<close>, the empty string,
  \<open>hyphenation\<close>, \<open>dots\<close>) and neither a quote nor a special character.
\<close>

theorem parseCommand_quote_and_specialchar_shadowed:
  "parseCommand (js ''quote-insert outer'') = Insert (Str (js ''outer''))
   \<and> parseCommand (js ''quote-insert'') = Insert (Str [])
   \<and> parseCommand (js ''specialchar-insert hyphenation'') = Insert (Str (js ''hyphenation''))
   \<and> parseCommand (js ''specialchar-insert dots'') = Insert (Str (js ''dots''))"
  by code_simp

subsection \<open>Key-spec normalization\<close>

lemma adjacent_Cons:
  "adjacent a b (x # t) \<longleftrightarrow> (t \<noteq> [] \<and> x = a \<and> hd t = b) \<or> adjacent a b t"
  by (cases t) auto

lemma adjacent_append:
  "adjacent a b (u @ v) \<longleftrightarrow>
     adjacent a b u \<or> adjacent a b v \<or> (u \<noteq> [] \<and> v \<noteq> [] \<and> last u = a \<and> hd v = b)"
proof (induction u)
  case Nil
  then show ?case by simp
next
  case (Cons x u)
  have "adjacent a b ((x # u) @ v) \<longleftrightarrow>
          (u @ v \<noteq> [] \<and> x = a \<and> hd (u @ v) = b) \<or> adjacent a b (u @ v)"
    by (simp add: adjacent_Cons)
  also have "\<dots> \<longleftrightarrow> (u @ v \<noteq> [] \<and> x = a \<and> hd (u @ v) = b)
       \<or> (adjacent a b u \<or> adjacent a b v \<or> (u \<noteq> [] \<and> v \<noteq> [] \<and> last u = a \<and> hd v = b))"
    by (simp only: Cons.IH)
  also have "\<dots> \<longleftrightarrow> adjacent a b (x # u) \<or> adjacent a b v
       \<or> (x # u \<noteq> [] \<and> v \<noteq> [] \<and> last (x # u) = a \<and> hd v = b)"
  proof (cases u)
    case Nil
    then show ?thesis by auto
  next
    case (Cons y u')
    then show ?thesis by auto
  qed
  finally show ?case .
qed

lemma adjacent_drop: "\<not> adjacent a b s \<Longrightarrow> \<not> adjacent a b (drop n s)"
  using adjacent_append[of a b "take n s" "drop n s"] by auto

text \<open>
  A global replacement brings no pair \<open>a b\<close> about when the text has none, the
  replacement text has none, does not start with \<open>b\<close> and does not end with \<open>a\<close>.
\<close>

lemma replaceAll_keeps_no_adjacent:
  assumes "\<not> adjacent a b rep" and "rep \<noteq> []" and "hd rep \<noteq> b" and "last rep \<noteq> a"
    and "\<not> adjacent a b s"
  shows "\<not> adjacent a b (replaceAll pat rep s)
         \<and> (replaceAll pat rep s \<noteq> [] \<and> hd (replaceAll pat rep s) = b \<longrightarrow> s \<noteq> [] \<and> hd s = b)"
  using assms(5)
proof (induction "length s" arbitrary: s rule: less_induct)
  case less
  show ?case
  proof (cases s)
    case Nil
    then show ?thesis by simp
  next
    case (Cons c cs)
    show ?thesis
    proof (cases "pat \<noteq> [] \<and> prefix pat (c # cs)")
      case True
      let ?d = "drop (length pat) (c # cs)"
      let ?t = "replaceAll pat rep ?d"
      have "length ?d < length s" using True Cons by (cases pat) auto
      moreover have "\<not> adjacent a b ?d"
        using less.prems Cons adjacent_drop by blast
      ultimately have t: "\<not> adjacent a b ?t" using less.hyps by blast
      have "replaceAll pat rep s = rep @ ?t" using True Cons by simp
      then show ?thesis
        using t assms(1-4) by (auto simp: adjacent_append)
    next
      case False
      let ?t = "replaceAll pat rep cs"
      have cs: "\<not> adjacent a b cs" using less.prems Cons by (auto simp: adjacent_Cons)
      have "length cs < length s" using Cons by simp
      with less.hyps cs
      have t: "\<not> adjacent a b ?t" and h: "?t \<noteq> [] \<and> hd ?t = b \<longrightarrow> cs \<noteq> [] \<and> hd cs = b"
        by blast+
      have eq: "replaceAll pat rep s = c # ?t" using False Cons by auto
      have "\<not> (?t \<noteq> [] \<and> c = a \<and> hd ?t = b)"
        using h less.prems Cons by (auto simp: adjacent_Cons)
      then show ?thesis
        using t eq Cons by (auto simp: adjacent_Cons)
    qed
  qed
qed

text \<open>
  A global replacement of the two-character pattern \<open>a b\<close> leaves no pair \<open>a b\<close>, under
  the same conditions on the replacement text.
\<close>

lemma replaceAll_removes_adjacent:
  assumes "a \<noteq> b" and "\<not> adjacent a b rep" and "rep \<noteq> []" and "hd rep \<noteq> b" and "last rep \<noteq> a"
  shows "\<not> adjacent a b (replaceAll [a, b] rep s)
         \<and> (replaceAll [a, b] rep s \<noteq> [] \<and> hd (replaceAll [a, b] rep s) = b \<longrightarrow> s \<noteq> [] \<and> hd s = b)"
proof (induction "length s" arbitrary: s rule: less_induct)
  case less
  show ?case
  proof (cases s)
    case Nil
    then show ?thesis by simp
  next
    case (Cons c cs)
    show ?thesis
    proof (cases "prefix [a, b] (c # cs)")
      case True
      let ?d = "drop 2 (c # cs)"
      let ?t = "replaceAll [a, b] rep ?d"
      have "length ?d < length s" using Cons by auto
      with less.hyps have t: "\<not> adjacent a b ?t" by blast
      have "replaceAll [a, b] rep s = rep @ ?t" using True Cons by simp
      then show ?thesis
        using t assms by (auto simp: adjacent_append)
    next
      case False
      let ?t = "replaceAll [a, b] rep cs"
      have "length cs < length s" using Cons by simp
      with less.hyps
      have t: "\<not> adjacent a b ?t" and h: "?t \<noteq> [] \<and> hd ?t = b \<longrightarrow> cs \<noteq> [] \<and> hd cs = b"
        by blast+
      have eq: "replaceAll [a, b] rep s = c # ?t" using False Cons by auto
      have "\<not> (?t \<noteq> [] \<and> c = a \<and> hd ?t = b)"
      proof
        assume *: "?t \<noteq> [] \<and> c = a \<and> hd ?t = b"
        with h have "cs \<noteq> [] \<and> hd cs = b" by simp
        then obtain r where "cs = b # r" by (cases cs) auto
        with * have "prefix [a, b] (c # cs)" by simp
        with False show False by simp
      qed
      then show ?thesis
        using t eq Cons by (auto simp: adjacent_Cons)
    qed
  qed
qed

text \<open>A three-character pattern that ends in \<open>a b\<close> does not occur in a text without that pair.\<close>

lemma replaceAll_absent:
  "\<not> adjacent a b s \<Longrightarrow> replaceAll [p, a, b] rep s = s"
proof (induction s)
  case Nil
  then show ?case by simp
next
  case (Cons c cs)
  have "\<not> prefix [p, a, b] (c # cs)"
  proof
    assume "prefix [p, a, b] (c # cs)"
    then obtain r where "c # cs = p # a # b # r" by (auto simp: prefix_def)
    with Cons.prems show False by (simp add: adjacent_Cons)
  qed
  then have "replaceAll [p, a, b] rep (c # cs) = c # replaceAll [p, a, b] rep cs"
    by (simp del: prefix_code)
  moreover have "\<not> adjacent a b cs" using Cons.prems by (auto simp: adjacent_Cons)
  ultimately show ?case using Cons.IH by simp
qed

lemma harmless_replacement:
  assumes "harmless rep" and "no_modifier_hyphen s"
  shows "no_modifier_hyphen (replaceAll pat rep s)"
  using assms
    replaceAll_keeps_no_adjacent[of 83 45 rep s pat]
    replaceAll_keeps_no_adjacent[of 67 45 rep s pat]
    replaceAll_keeps_no_adjacent[of 77 45 rep s pat]
  by (simp add: harmless_def no_modifier_hyphen_def)

lemma harmless_texts:
  "harmless (js ''Alt+'')" "harmless (js ''Ctrl+'')" "harmless (js ''Shift+'')"
  "harmless (js ''Space'')" "harmless (js ''Enter'')" "harmless (js ''Backspace'')"
  "harmless (js ''Delete'')" "harmless (js ''Tab'')" "harmless (js ''Escape'')"
  "harmless (js ''ArrowUp'')" "harmless (js ''ArrowDown'')" "harmless (js ''ArrowLeft'')"
  "harmless (js ''ArrowRight'')" "harmless (js ''PageUp'')" "harmless (js ''PageDown'')"
  "harmless (js ''Home'')" "harmless (js ''End'')"
  by code_simp+

lemma pattern_literals:
  "js ''M-'' = [77, 45]" "js ''C-'' = [67, 45]" "js ''S-'' = [83, 45]"
  "js ''~S-'' = [126, 83, 45]" "js ''~C-'' = [126, 67, 45]" "js ''~M-'' = [126, 77, 45]"
  by code_simp+

lemma normalizeModifiers_no_modifier_hyphen: "no_modifier_hyphen (normalizeModifiers k)"
proof -
  let ?s1 = "replaceAll (js ''M-'') (js ''Alt+'') k"
  let ?s2 = "replaceAll (js ''C-'') (js ''Ctrl+'') ?s1"
  let ?s3 = "replaceAll (js ''S-'') (js ''Shift+'') ?s2"
  have h: "harmless (js ''Alt+'')" "harmless (js ''Ctrl+'')" "harmless (js ''Shift+'')"
    by (rule harmless_texts)+
  have m1: "\<not> adjacent 77 45 ?s1"
    using replaceAll_removes_adjacent[of 77 45 "js ''Alt+''" k] h(1)
    by (simp add: pattern_literals harmless_def no_modifier_hyphen_def)
  have m2: "\<not> adjacent 77 45 ?s2"
    using replaceAll_keeps_no_adjacent[of 77 45 "js ''Ctrl+''" ?s1 "js ''C-''"] h(2) m1
    by (simp add: harmless_def no_modifier_hyphen_def)
  have c2: "\<not> adjacent 67 45 ?s2"
    using replaceAll_removes_adjacent[of 67 45 "js ''Ctrl+''" ?s1] h(2)
    by (simp add: pattern_literals harmless_def no_modifier_hyphen_def)
  have m3: "\<not> adjacent 77 45 ?s3"
    using replaceAll_keeps_no_adjacent[of 77 45 "js ''Shift+''" ?s2 "js ''S-''"] h(3) m2
    by (simp add: harmless_def no_modifier_hyphen_def)
  have c3: "\<not> adjacent 67 45 ?s3"
    using replaceAll_keeps_no_adjacent[of 67 45 "js ''Shift+''" ?s2 "js ''S-''"] h(3) c2
    by (simp add: harmless_def no_modifier_hyphen_def)
  have s3: "\<not> adjacent 83 45 ?s3"
    using replaceAll_removes_adjacent[of 83 45 "js ''Shift+''" ?s2] h(3)
    by (simp add: pattern_literals harmless_def no_modifier_hyphen_def)
  have "no_modifier_hyphen ?s3"
    using m3 c3 s3 by (simp add: no_modifier_hyphen_def)
  from harmless_replacement[OF h(1) this, of "js ''A-''"]
  show ?thesis by (simp add: normalizeModifiers_def)
qed

lemma normalizeSpecialKeys_no_modifier_hyphen:
  "no_modifier_hyphen s \<Longrightarrow> no_modifier_hyphen (normalizeSpecialKeys s)"
  unfolding normalizeSpecialKeys_def
  by (intro harmless_replacement harmless_texts)

text \<open>
  The three replacements that are to strip \<open>~S-\<close>, \<open>~C-\<close> and \<open>~M-\<close> change nothing,
  whatever the key-spec: after the first group of replacements no \<open>S\<close>, \<open>C\<close> or \<open>M\<close> is
  followed by a hyphen, and the second group does not bring such a pair back.
\<close>

lemma stripNegatedModifiers_never_strips:
  "normalizeKeySequence k = normalizeSpecialKeys (normalizeModifiers k)"
proof -
  let ?s = "normalizeSpecialKeys (normalizeModifiers k)"
  have "no_modifier_hyphen ?s"
    by (intro normalizeSpecialKeys_no_modifier_hyphen normalizeModifiers_no_modifier_hyphen)
  then have "stripNegatedModifiers ?s = ?s"
    by (simp add: stripNegatedModifiers_def no_modifier_hyphen_def pattern_literals
                  replaceAll_absent)
  then show ?thesis by (simp add: normalizeKeySequence_def)
qed

text \<open>
  C2. The claim: a negated-modifier prefix \<open>~S-\<close>, \<open>~C-\<close> or \<open>~M-\<close> is stripped and no
  modifier token is emitted, so that \<open>~S-slash\<close> normalizes to \<open>slash\<close>. The code at
  the three prefixes: the replacement of \<open>S-\<close> by \<open>Shift+\<close> (and of \<open>C-\<close>, \<open>M-\<close>) runs
  before the replacement that would strip \<open>~S-\<close>, so the tilde stays and the modifier
  token is emitted.
\<close>

theorem normalizeKeySequence_negated_modifier_kept:
  "normalizeKeySequence (js ''~S-slash'') = js ''~Shift+slash''
   \<and> normalizeKeySequence (js ''~C-a'') = js ''~Ctrl+a''
   \<and> normalizeKeySequence (js ''~M-a'') = js ''~Alt+a''"
  by code_simp

section \<open>Properties of the hotkey manager\<close>

subsection \<open>Conflict detection\<close>

text \<open>The loop of \<open>hasConflict\<close> decides whether one token list is a prefix of the other.\<close>

lemma equal_at_shared_positions_iff:
  "equal_at_shared_positions ps qs \<longleftrightarrow> prefix ps qs \<or> prefix qs ps"
  by (induction ps qs rule: equal_at_shared_positions.induct) auto

lemma hasConflict_iff:
  "hasConflict a b \<longleftrightarrow>
     strict_prefix (split space a) (split space b) \<or> strict_prefix (split space b) (split space a)"
proof -
  have "(prefix ps qs \<or> prefix qs ps) \<and> length ps \<noteq> length qs
        \<longleftrightarrow> strict_prefix ps qs \<or> strict_prefix qs ps" for ps qs :: "jsstring list"
    by (auto simp: strict_prefix_def prefix_def)
  moreover have "hasConflict a b \<longleftrightarrow>
      (prefix (split space a) (split space b) \<or> prefix (split space b) (split space a))
      \<and> length (split space a) \<noteq> length (split space b)"
    by (auto simp: hasConflict_def Let_def equal_at_shared_positions_iff)
  ultimately show ?thesis by simp
qed

lemma hasConflict_sym: "hasConflict a b = hasConflict b a"
  by (auto simp: hasConflict_iff)

lemma hasConflict_irrefl: "\<not> hasConflict a a"
  by (simp add: hasConflict_iff)

lemma set_flagged_pairs_subset:
  "(a, b) \<in> set (flagged_pairs keys) \<Longrightarrow> a \<in> set keys \<and> b \<in> set keys \<and> hasConflict a b"
  by (induction keys) auto

lemma flags_iff_hasConflict:
  assumes "a \<in> set keys" and "b \<in> set keys"
  shows "flags keys a b \<longleftrightarrow> hasConflict a b"
  using assms
proof (induction keys)
  case Nil
  then show ?case by simp
next
  case (Cons k keys)
  show ?case
  proof (cases "a = b")
    case True
    then show ?thesis
      using set_flagged_pairs_subset[of a a "k # keys"] hasConflict_irrefl[of a]
      by (auto simp: flags_def)
  next
    case False
    show ?thesis
    proof (cases "a = k \<or> b = k")
      case True
      then show ?thesis
        using False Cons.prems hasConflict_sym[of a b]
          set_flagged_pairs_subset[of a b keys] set_flagged_pairs_subset[of b a keys]
        by (auto simp: flags_def)
    next
      case False
      then have "flags (k # keys) a b = flags keys a b"
        by (auto simp: flags_def)
      with False Cons show ?thesis by auto
    qed
  qed
qed

lemma set_fold_Set_add: "set (fold Set_add xs cs) = set xs \<union> set cs"
  by (induction xs arbitrary: cs) (auto simp: Set_add_def)

lemma detect_inner_eq:
  "detect_inner s later cs =
     fold Set_add (map (conflict_description s) (filter (hasConflict s) later)) cs"
  by (induction later arbitrary: cs) auto

lemma detect_outer_eq:
  "detect_outer keys cs =
     fold Set_add (map (\<lambda>(x, y). conflict_description x y) (flagged_pairs keys)) cs"
  by (induction keys arbitrary: cs) (auto simp: detect_inner_eq comp_def)

text \<open>
  C6. \<open>detectConflicts\<close> adds one description per pair of \<open>flagged_pairs\<close>. For two
  different registered sequences, the pair is flagged (in one order or the other) if and
  only if the token list of one is a strict prefix of the token list of the other; whether
  it is flagged does not depend on the order of registration \<open>T'\<close> of the same sequences.
  \<open>Alt+m\<close> and \<open>Alt+m g\<close> are flagged in either order of registration, the description
  naming the earlier sequence first; \<open>Alt+m f\<close> and \<open>Alt+m g\<close> are not flagged.
\<close>

theorem detectConflicts_strict_prefix:
  "detectConflicts T =
     fold Set_add (map (\<lambda>(x, y). conflict_description x y) (flagged_pairs (map fst T))) []
   \<and> (a \<in> fst ` set T \<and> b \<in> fst ` set T \<and> a \<noteq> b \<longrightarrow>
        (flags (map fst T) a b \<longleftrightarrow>
           strict_prefix (split space a) (split space b)
           \<or> strict_prefix (split space b) (split space a)))
   \<and> (a \<in> fst ` set T \<and> b \<in> fst ` set T \<and> fst ` set T' = fst ` set T \<longrightarrow>
        flags (map fst T') a b = flags (map fst T) a b)
   \<and> detectConflicts [(js ''Alt+m'', b1), (js ''Alt+m g'', b2)] = [js ''Alt+m <-> Alt+m g'']
   \<and> detectConflicts [(js ''Alt+m g'', b2), (js ''Alt+m'', b1)] = [js ''Alt+m g <-> Alt+m'']
   \<and> detectConflicts [(js ''Alt+m f'', b1), (js ''Alt+m g'', b2)] = []"
proof -
  have 1: "detectConflicts T =
     fold Set_add (map (\<lambda>(x, y). conflict_description x y) (flagged_pairs (map fst T))) []"
    by (simp add: detectConflicts_def detect_outer_eq)
  have 2: "flags (map fst T) a b \<longleftrightarrow>
           strict_prefix (split space a) (split space b)
           \<or> strict_prefix (split space b) (split space a)"
    if "a \<in> fst ` set T" "b \<in> fst ` set T"
    using that flags_iff_hasConflict[of a "map fst T" b] by (simp add: hasConflict_iff)
  have 3: "flags (map fst T') a b = flags (map fst T) a b"
    if "a \<in> fst ` set T" "b \<in> fst ` set T" "fst ` set T' = fst ` set T"
    using that flags_iff_hasConflict[of a "map fst T" b] flags_iff_hasConflict[of a "map fst T'" b]
    by simp
  have 4: "detectConflicts [(js ''Alt+m'', b1), (js ''Alt+m g'', b2)] = [js ''Alt+m <-> Alt+m g'']"
    by code_simp
  have 5: "detectConflicts [(js ''Alt+m g'', b2), (js ''Alt+m'', b1)] = [js ''Alt+m g <-> Alt+m'']"
    by code_simp
  have 6: "detectConflicts [(js ''Alt+m f'', b1), (js ''Alt+m g'', b2)] = []"
    by code_simp
  show ?thesis
    using 1 2 3 4 5 6 by blast
qed

text \<open>
  The theorem at the scenario's table and at its reversal, for \<open>Alt+m g\<close> and
  \<open>Alt+m g a\<close>: both are registered, the pair is flagged in both tables, and the first
  is a strict prefix of the second.
\<close>

theorem detectConflicts_strict_prefix_witness:
  "js ''Alt+m g'' \<in> fst ` set scenario_table
   \<and> js ''Alt+m g a'' \<in> fst ` set scenario_table
   \<and> js ''Alt+m g'' \<noteq> js ''Alt+m g a''
   \<and> fst ` set (rev scenario_table) = fst ` set scenario_table
   \<and> flags (map fst scenario_table) (js ''Alt+m g'') (js ''Alt+m g a'')
   \<and> flags (map fst (rev scenario_table)) (js ''Alt+m g'') (js ''Alt+m g a'')
   \<and> strict_prefix (split space (js ''Alt+m g'')) (split space (js ''Alt+m g a''))
   \<and> detectConflicts scenario_table = [js ''Alt+m g a <-> Alt+m g'']"
proof -
  have h1: "js ''Alt+m g'' \<in> fst ` set scenario_table" by code_simp
  have h2: "js ''Alt+m g a'' \<in> fst ` set scenario_table" by code_simp
  have h3: "js ''Alt+m g'' \<noteq> js ''Alt+m g a''" by code_simp
  have h4: "fst ` set (rev scenario_table) = fst ` set scenario_table" by simp
  have p: "strict_prefix (split space (js ''Alt+m g'')) (split space (js ''Alt+m g a''))"
    by code_simp
  have d: "detectConflicts scenario_table = [js ''Alt+m g a <-> Alt+m g'']" by code_simp
  from detectConflicts_strict_prefix
         [of scenario_table "js ''Alt+m g''" "js ''Alt+m g a''" "rev scenario_table"]
  show ?thesis using h1 h2 h3 h4 p d by blast
qed

subsection \<open>The pending tokens and the timer\<close>

lemma timer_invariant_new: "timer_invariant new_HotkeyManager"
  by (simp add: timer_invariant_def new_HotkeyManager_def)

lemma resetSequence_idle:
  assumes "timer_invariant w0" and "timeoutId w = timeoutId w0" and "armed w = armed w0"
    and "nextTimerId w = nextTimerId w0"
  shows "timer_invariant (resetSequence w) \<and> currentSequence (resetSequence w) = []
         \<and> timeoutId (resetSequence w) = None \<and> armed (resetSequence w) = {}"
  using assms
  by (auto simp: timer_invariant_def resetSequence_def clearSequenceTimeout_def
           split: option.splits)

lemma startSequenceTimeout_pending:
  assumes "timer_invariant w0" and "timeoutId w = timeoutId w0" and "armed w = armed w0"
    and "nextTimerId w = nextTimerId w0" and "currentSequence w \<noteq> []"
  shows "timer_invariant (startSequenceTimeout w)"
  using assms
  by (auto simp: timer_invariant_def startSequenceTimeout_def clearSequenceTimeout_def Let_def
           split: option.splits)

lemma handleKeyDown_invariant:
  assumes "timer_invariant w"
  shows "timer_invariant (fst (handleKeyDown lc ins w ev))"
proof -
  let ?k = "eventToKeyString lc ev"
  let ?w1 = "w\<lparr>currentSequence := currentSequence w @ [?k]\<rparr>"
  have r: "timer_invariant (resetSequence ?w1)"
    using resetSequence_idle[OF assms, of ?w1] by simp
  have s: "timer_invariant (startSequenceTimeout ?w1)"
    using startSequenceTimeout_pending[OF assms, of ?w1] by simp
  show ?thesis
    using assms r s by (auto simp: handleKeyDown_def Let_def split: option.splits)
qed

lemma timer_fires_invariant:
  assumes "timer_invariant w"
  shows "timer_invariant (timer_fires t w)"
  using assms
  by (auto simp: timer_invariant_def timer_fires_def resetSequence_def clearSequenceTimeout_def
           split: option.splits)

lemma step_invariant:
  assumes "timer_invariant w"
  shows "timer_invariant (step lc op w)"
proof (cases op)
  case (KeyDown ins ev)
  then show ?thesis using handleKeyDown_invariant[OF assms] by simp
next
  case (TimerFires t)
  then show ?thesis using timer_fires_invariant[OF assms] by simp
next
  case (SetEnabled b)
  have "timer_invariant (resetSequence (w\<lparr>enabled := b\<rparr>))"
    using resetSequence_idle[OF assms, of "w\<lparr>enabled := b\<rparr>"] by simp
  moreover have "timer_invariant (w\<lparr>enabled := b\<rparr>)"
    using assms by (auto simp: timer_invariant_def split: option.splits)
  ultimately show ?thesis using SetEnabled by (cases b) (auto simp: setEnabled_def Let_def)
next
  case (LoadBindings tbl)
  then show ?thesis using assms by (auto simp: loadBindings_def Let_def timer_invariant_def split: option.splits)
next
  case (SetSequenceTimeout n)
  then show ?thesis using assms by (auto simp: setSequenceTimeout_def timer_invariant_def split: option.splits)
next
  case StopListening
  then show ?thesis using resetSequence_idle[OF assms, of w] by (simp add: stopListening_def)
next
  case (SettingsLoaded t e)
  then show ?thesis using assms by (auto simp: loadSettings_def timer_invariant_def split: option.splits)
next
  case HostTimerElsewhere
  then show ?thesis using assms by (auto simp: timer_invariant_def split: option.splits)
qed

lemma run_invariant:
  assumes "timer_invariant w"
  shows "timer_invariant (run lc ops w)"
  using assms unfolding run_def
  by (induction ops arbitrary: w) (auto simp: step_invariant)

lemma timer_invariant_correspondence:
  assumes "timer_invariant w"
  shows "(currentSequence w \<noteq> []) = (armed w \<noteq> {})"
  using assms by (auto simp: timer_invariant_def split: option.splits)

text \<open>
  C9. The correspondence holds when the manager is constructed, every operation preserves
  it (a key press in each of its branches, a timer firing, \<open>setEnabled\<close>,
  \<open>loadBindings\<close>, \<open>setSequenceTimeout\<close>, \<open>stopListening\<close>, the arrival of the stored
  settings), so it holds in every state reached from the constructed manager; and where
  it holds, tokens are pending if and only if a timeout callback is armed, which is the
  one whose handle the manager holds. The correspondence does not depend on \<open>enabled\<close>:
  it holds in the enabled states in particular.
\<close>

theorem pending_iff_timer_armed:
  "timer_invariant new_HotkeyManager
   \<and> (timer_invariant w \<longrightarrow> timer_invariant (step lc op w))
   \<and> timer_invariant (run lc ops new_HotkeyManager)
   \<and> (timer_invariant w \<longrightarrow>
         ((currentSequence w \<noteq> []) = (armed w \<noteq> {}))
         \<and> ((armed w \<noteq> {}) = (timeoutId w \<noteq> None)))"
proof -
  have "(armed w \<noteq> {}) = (timeoutId w \<noteq> None)" if "timer_invariant w"
    using that by (auto simp: timer_invariant_def split: option.splits)
  then show ?thesis
    using timer_invariant_new step_invariant run_invariant[OF timer_invariant_new]
      timer_invariant_correspondence
    by blast
qed

text \<open>
  The theorem at the scenario: after \<open>Alt+m\<close> the manager is pending with an armed
  timer; the correspondence is kept by a following \<open>h\<close> (a dead end) and by a
  following \<open>g\<close> (an exact match), after which no token is pending and no timer armed.
\<close>

theorem pending_iff_timer_armed_witness:
  "timer_invariant scenario_pending
   \<and> enabled scenario_pending
   \<and> currentSequence scenario_pending = [js ''Alt+m'']
   \<and> armed scenario_pending = {1}
   \<and> timer_invariant
        (step ascii_toLowerCase (KeyDown throwing_sink (press False ''h'')) scenario_pending)
   \<and> timer_invariant
        (step ascii_toLowerCase (KeyDown throwing_sink (press False ''g'')) scenario_pending)
   \<and> armed (step ascii_toLowerCase (KeyDown throwing_sink (press False ''g'')) scenario_pending)
       = {}
   \<and> currentSequence
        (step ascii_toLowerCase (KeyDown throwing_sink (press False ''g'')) scenario_pending)
       = []"
proof -
  have h: "timer_invariant scenario_pending" by code_simp
  have e: "enabled scenario_pending" by code_simp
  have c: "currentSequence scenario_pending = [js ''Alt+m'']" by code_simp
  have a: "armed scenario_pending = {1}" by code_simp
  have a2: "armed (step ascii_toLowerCase (KeyDown throwing_sink (press False ''g''))
              scenario_pending) = {}" by code_simp
  have c2: "currentSequence (step ascii_toLowerCase (KeyDown throwing_sink (press False ''g''))
              scenario_pending) = []" by code_simp
  from pending_iff_timer_armed
         [of scenario_pending ascii_toLowerCase "KeyDown throwing_sink (press False ''g'')" "[]"]
       pending_iff_timer_armed
         [of scenario_pending ascii_toLowerCase "KeyDown throwing_sink (press False ''h'')" "[]"]
  show ?thesis using h e c a a2 c2 by blast
qed

subsection \<open>Exact match and dead end\<close>

lemma handleKeyDown_accepts:
  assumes "enabled w" and "isEditableContext (target ev) \<or> isSpecialKey ev"
    and "eventToKeyString lc ev \<noteq> []"
  shows "handleKeyDown lc ins w ev =
     (let w1 = w\<lparr>currentSequence := currentSequence w @ [eventToKeyString lc ev]\<rparr>;
          s = join space (currentSequence w1)
      in case map_of (bindings w) s of
           Some exactMatch \<Rightarrow>
             (resetSequence w1,
              executeAction ins w1 exactMatch ev @ [Prevent_default_and_stop_propagation])
         | None \<Rightarrow>
             if hasMatchingPrefix w s
             then (startSequenceTimeout w1, [Prevent_default_and_stop_propagation])
             else (resetSequence w1, []))"
  using assms by (auto simp: handleKeyDown_def Let_def hasMatchingPrefix_def)

text \<open>
  C3. The claim: on an exact match the pending tokens are cleared before the sink is
  called, so that they are empty when the sink runs. The code at the scenario, pending
  after \<open>Alt+m\<close>, on the key \<open>f\<close> with a sink that throws: the sink is called with the two
  tokens of the completed sequence still pending (\<open>executeAction\<close> runs before
  \<open>resetSequence\<close>).
\<close>

theorem sink_runs_before_reset:
  "snd (handleKeyDown ascii_toLowerCase throwing_sink scenario_pending (press False ''f''))
     = [Sink_insertText (Str (backslash # js ''frac{}{}'')) input_field [js ''Alt+m'', js ''f''],
        Log_failed_to_execute_action,
        Prevent_default_and_stop_propagation]"
  by code_simp

text \<open>
  C3 as amended. On an exact match the sink (when the action is an insertion and a sink
  is present) is called first, while the pending tokens are the completed sequence; a
  throw of the sink is caught by \<open>executeAction\<close>; then the manager resets. The state
  after the key press is the same whatever the sink does, and it is idle: no pending
  tokens, no timer handle, no armed timer.
\<close>

theorem exact_match_resets_after_sink:
  assumes "timer_invariant w" and "enabled w"
    and "isEditableContext (target ev) \<or> isSpecialKey ev"
    and "eventToKeyString lc ev \<noteq> []"
    and "map_of (bindings w) (join space (currentSequence w @ [eventToKeyString lc ev])) = Some b"
  shows "snd (handleKeyDown lc ins w ev) =
           executeAction ins (w\<lparr>currentSequence := currentSequence w @ [eventToKeyString lc ev]\<rparr>)
             b ev @ [Prevent_default_and_stop_propagation]
         \<and> (action b = Insert inserted \<and> ins = Some f \<longrightarrow>
              hd (snd (handleKeyDown lc ins w ev)) =
                Sink_insertText inserted (target ev) (currentSequence w @ [eventToKeyString lc ev]))
         \<and> fst (handleKeyDown lc ins w ev) = fst (handleKeyDown lc ins' w ev)
         \<and> currentSequence (fst (handleKeyDown lc ins w ev)) = []
         \<and> timeoutId (fst (handleKeyDown lc ins w ev)) = None
         \<and> armed (fst (handleKeyDown lc ins w ev)) = {}
         \<and> timer_invariant (fst (handleKeyDown lc ins w ev))"
proof -
  let ?w1 = "w\<lparr>currentSequence := currentSequence w @ [eventToKeyString lc ev]\<rparr>"
  have eq: "handleKeyDown lc i w ev =
      (resetSequence ?w1, executeAction i ?w1 b ev @ [Prevent_default_and_stop_propagation])"
    for i
    using handleKeyDown_accepts[OF assms(2,3,4), of i] assms(5) by (simp add: Let_def)
  have idle: "timer_invariant (resetSequence ?w1) \<and> currentSequence (resetSequence ?w1) = []
         \<and> timeoutId (resetSequence ?w1) = None \<and> armed (resetSequence ?w1) = {}"
    using resetSequence_idle[OF assms(1), of ?w1] by simp
  have sink: "hd (snd (handleKeyDown lc ins w ev)) =
                Sink_insertText inserted (target ev) (currentSequence w @ [eventToKeyString lc ev])"
    if "action b = Insert inserted" "ins = Some f"
    unfolding eq[of ins] using that
    by (cases "f inserted (target ev)") (simp_all add: executeAction_def)
  have same: "fst (handleKeyDown lc ins w ev) = fst (handleKeyDown lc ins' w ev)"
    by (simp add: eq)
  have effects: "snd (handleKeyDown lc ins w ev) =
      executeAction ins ?w1 b ev @ [Prevent_default_and_stop_propagation]"
    by (simp add: eq)
  have state: "fst (handleKeyDown lc ins w ev) = resetSequence ?w1"
    by (simp add: eq)
  show ?thesis
    using effects sink same idle unfolding state by blast
qed

theorem exact_match_resets_after_sink_witness:
  "timer_invariant scenario_pending
   \<and> enabled scenario_pending
   \<and> (isEditableContext (target (press False ''f'')) \<or> isSpecialKey (press False ''f''))
   \<and> eventToKeyString ascii_toLowerCase (press False ''f'') \<noteq> []
   \<and> map_of (bindings scenario_pending)
        (join space (currentSequence scenario_pending
                     @ [eventToKeyString ascii_toLowerCase (press False ''f'')]))
       = Some (snd (hd scenario_table))
   \<and> action (snd (hd scenario_table)) = Insert (Str (backslash # js ''frac{}{}''))
   \<and> hd (snd (handleKeyDown ascii_toLowerCase throwing_sink scenario_pending (press False ''f'')))
       = Sink_insertText (Str (backslash # js ''frac{}{}'')) (target (press False ''f''))
           (currentSequence scenario_pending
            @ [eventToKeyString ascii_toLowerCase (press False ''f'')])
   \<and> currentSequence
        (fst (handleKeyDown ascii_toLowerCase throwing_sink scenario_pending (press False ''f'')))
       = []
   \<and> armed
        (fst (handleKeyDown ascii_toLowerCase throwing_sink scenario_pending (press False ''f'')))
       = {}"
proof -
  have h1: "timer_invariant scenario_pending" by code_simp
  have h2: "enabled scenario_pending" by code_simp
  have h3: "isEditableContext (target (press False ''f'')) \<or> isSpecialKey (press False ''f'')"
    by code_simp
  have h4: "eventToKeyString ascii_toLowerCase (press False ''f'') \<noteq> []" by code_simp
  have h5: "map_of (bindings scenario_pending)
        (join space (currentSequence scenario_pending
                     @ [eventToKeyString ascii_toLowerCase (press False ''f'')]))
       = Some (snd (hd scenario_table))" by code_simp
  have h6: "action (snd (hd scenario_table)) = Insert (Str (backslash # js ''frac{}{}''))"
    by code_simp
  have h7: "throwing_sink = Some (\<lambda>txt tgt. Throws)" by (simp add: throwing_sink_def)
  from exact_match_resets_after_sink[OF h1 h2 h3 h4 h5,
         where inserted = "Str (backslash # js ''frac{}{}'')" and ins = throwing_sink
           and f = "\<lambda>txt tgt. Throws" and ins' = None]
  show ?thesis using h1 h2 h3 h4 h5 h6 h7 by blast
qed

text \<open>
  C8. When the candidate, the pending tokens followed by the new token, is neither a key
  of the table nor a prefix (followed by a space) of a key, the key press leaves the
  manager idle (no pending tokens, no timer), has no effect on its surroundings (no
  action, the default not prevented), and changes nothing else. The new token does not
  start a sequence: the pending tokens are empty after the press and not the token alone,
  also when the token by itself is a key of the table or begins one.
\<close>

theorem dead_end_resets_without_retry:
  assumes "timer_invariant w" and "enabled w"
    and "isEditableContext (target ev) \<or> isSpecialKey ev"
    and "eventToKeyString lc ev \<noteq> []"
    and "map_of (bindings w) (join space (currentSequence w @ [eventToKeyString lc ev])) = None"
    and "\<not> hasMatchingPrefix w (join space (currentSequence w @ [eventToKeyString lc ev]))"
  shows "handleKeyDown lc ins w ev =
           (resetSequence (w\<lparr>currentSequence := currentSequence w @ [eventToKeyString lc ev]\<rparr>),
            [])
         \<and> currentSequence (fst (handleKeyDown lc ins w ev)) = []
         \<and> timeoutId (fst (handleKeyDown lc ins w ev)) = None
         \<and> armed (fst (handleKeyDown lc ins w ev)) = {}
         \<and> bindings (fst (handleKeyDown lc ins w ev)) = bindings w
         \<and> enabled (fst (handleKeyDown lc ins w ev))
         \<and> snd (handleKeyDown lc ins w ev) = []"
proof -
  let ?w1 = "w\<lparr>currentSequence := currentSequence w @ [eventToKeyString lc ev]\<rparr>"
  have eq: "handleKeyDown lc ins w ev = (resetSequence ?w1, [])"
    using handleKeyDown_accepts[OF assms(2,3,4), of ins] assms(5,6) by (simp add: Let_def)
  have idle: "currentSequence (resetSequence ?w1) = []
         \<and> timeoutId (resetSequence ?w1) = None \<and> armed (resetSequence ?w1) = {}"
    using resetSequence_idle[OF assms(1), of ?w1] by simp
  have rest: "bindings (resetSequence ?w1) = bindings w \<and> enabled (resetSequence ?w1)"
    using assms(2)
    by (auto simp: resetSequence_def clearSequenceTimeout_def split: option.splits)
  show ?thesis
    using eq idle rest by simp
qed

text \<open>
  The theorem at the scenario, pending after \<open>Alt+m\<close>, on the key \<open>x\<close>: \<open>Alt+m x\<close> is
  a dead end although \<open>x\<close> alone is a key of the table; the manager ends idle, the
  binding of \<open>x\<close> does not fire.
\<close>

theorem dead_end_resets_without_retry_witness:
  "timer_invariant scenario_pending
   \<and> enabled scenario_pending
   \<and> (isEditableContext (target (press False ''x'')) \<or> isSpecialKey (press False ''x''))
   \<and> eventToKeyString ascii_toLowerCase (press False ''x'') = js ''x''
   \<and> eventToKeyString ascii_toLowerCase (press False ''x'') \<noteq> []
   \<and> currentSequence scenario_pending = [js ''Alt+m'']
   \<and> map_of (bindings scenario_pending) (js ''x'') \<noteq> None
   \<and> map_of (bindings scenario_pending)
        (join space (currentSequence scenario_pending
                     @ [eventToKeyString ascii_toLowerCase (press False ''x'')])) = None
   \<and> \<not> hasMatchingPrefix scenario_pending
        (join space (currentSequence scenario_pending
                     @ [eventToKeyString ascii_toLowerCase (press False ''x'')]))
   \<and> currentSequence
        (fst (handleKeyDown ascii_toLowerCase throwing_sink scenario_pending (press False ''x'')))
       = []
   \<and> snd (handleKeyDown ascii_toLowerCase throwing_sink scenario_pending (press False ''x''))
       = []"
proof -
  have h1: "timer_invariant scenario_pending" by code_simp
  have h2: "enabled scenario_pending" by code_simp
  have h3: "isEditableContext (target (press False ''x'')) \<or> isSpecialKey (press False ''x'')"
    by code_simp
  have h4: "eventToKeyString ascii_toLowerCase (press False ''x'') \<noteq> []" by code_simp
  have h5: "map_of (bindings scenario_pending)
        (join space (currentSequence scenario_pending
                     @ [eventToKeyString ascii_toLowerCase (press False ''x'')])) = None"
    by code_simp
  have h6: "\<not> hasMatchingPrefix scenario_pending
        (join space (currentSequence scenario_pending
                     @ [eventToKeyString ascii_toLowerCase (press False ''x'')]))"
    by code_simp
  have e1: "eventToKeyString ascii_toLowerCase (press False ''x'') = js ''x''" by code_simp
  have e2: "currentSequence scenario_pending = [js ''Alt+m'']" by code_simp
  have e3: "map_of (bindings scenario_pending) (js ''x'') \<noteq> None" by code_simp
  from dead_end_resets_without_retry[OF h1 h2 h3 h4 h5 h6, of throwing_sink]
  show ?thesis using h1 h2 h3 h4 h5 h6 e1 e2 e3 by blast
qed

section \<open>Properties of parse\<close>

subsection \<open>The regular expression and the grammar\<close>

lemma directive_length: "length (backslash # js ''bind'') = 5"
  by (simp add: js_def)

lemma dquote_not_ws: "\<not> is_ws dquote"
  by (simp add: is_ws_def dquote_def)

lemma match_ws_run:
  assumes "ws_run u" and "rest = [] \<or> \<not> is_ws (hd rest)"
  shows "match_ws (u @ rest) = Some rest"
proof -
  from assms(1) obtain x xs where u: "u = x # xs" and x: "is_ws x" and xs: "\<forall>y\<in>set xs. is_ws y"
    by (cases u) (auto simp: ws_run_def list_all_iff)
  have "dropWhile is_ws (xs @ rest) = rest"
    using xs assms(2) by (cases rest) (auto simp: dropWhile_append)
  then show ?thesis using u x by (simp add: match_ws_def)
qed

lemma match_ws_Some:
  assumes "match_ws s = Some rest"
  shows "\<exists>u. ws_run u \<and> s = u @ rest"
proof -
  from assms obtain x xs where s: "s = x # xs" and x: "is_ws x" and r: "rest = dropWhile is_ws xs"
    by (cases s) (auto simp: match_ws_def split: if_splits)
  have "ws_run (x # takeWhile is_ws xs)"
    using x by (auto simp: ws_run_def list_all_iff dest: set_takeWhileD)
  moreover have "s = (x # takeWhile is_ws xs) @ rest"
    using s r by simp
  ultimately show ?thesis by blast
qed

lemma match_quoted_field:
  assumes "quoted_field k"
  shows "match_quoted (dquote # k @ dquote # rest) = Some (k, rest)"
proof -
  from assms have ne: "k \<noteq> []" and nq: "\<forall>x\<in>set k. x \<noteq> dquote"
    by (auto simp: quoted_field_def)
  have t: "takeWhile (\<lambda>x. x \<noteq> dquote) (k @ dquote # rest) = k"
    using nq by (simp add: takeWhile_append)
  have d: "dropWhile (\<lambda>x. x \<noteq> dquote) (k @ dquote # rest) = dquote # rest"
    using nq by (simp add: dropWhile_append)
  show ?thesis using ne by (simp add: match_quoted_def Let_def t d)
qed

lemma match_quoted_Some:
  assumes "match_quoted s = Some (k, rest)"
  shows "quoted_field k \<and> s = dquote # k @ dquote # rest"
proof -
  from assms obtain cs where s: "s = dquote # cs"
    by (cases s) (auto simp: match_quoted_def split: if_splits)
  let ?b = "takeWhile (\<lambda>x. x \<noteq> dquote) cs"
  let ?r = "dropWhile (\<lambda>x. x \<noteq> dquote) cs"
  from assms s have b: "?b \<noteq> []" and k: "k = ?b" and "\<exists>q. ?r = q # rest"
    by (auto simp: match_quoted_def Let_def split: if_splits list.splits)
  then obtain q where r: "?r = q # rest" by blast
  then have "?r \<noteq> []" by simp
  from hd_dropWhile[OF this] r have "q = dquote" by simp
  with r have "?r = dquote # rest" by simp
  then have "cs = ?b @ dquote # rest" by (metis takeWhile_dropWhile_id)
  moreover have "quoted_field ?b"
    using b by (auto simp: quoted_field_def dest: set_takeWhileD)
  ultimately show ?thesis using s k by simp
qed

text \<open>
  At a given start, the regular expression matches exactly when the text starts with a
  line of the grammar, and its groups are the two fields.
\<close>

lemma match_bind_at_pattern:
  assumes "binding_pattern k c m"
  shows "match_bind_at (m @ post) = Some (k, c)"
proof -
  from assms obtain u v where u: "ws_run u" and v: "ws_run v"
    and fk: "quoted_field k" and fc: "quoted_field c"
    and m: "m = (backslash # js ''bind'') @ u @ dquote # k @ dquote # v @ dquote # c @ [dquote]"
    by (auto simp: binding_pattern_def)
  let ?s3 = "dquote # c @ dquote # post"
  let ?s2 = "v @ ?s3"
  let ?s1 = "dquote # k @ dquote # ?s2"
  have eq: "m @ post = (backslash # js ''bind'') @ u @ ?s1" using m by simp
  have p: "prefix (backslash # js ''bind'') (m @ post)" unfolding eq by (rule prefixI) simp
  have d: "drop 5 (m @ post) = u @ ?s1"
    unfolding eq using directive_length by (metis append_eq_conv_conj)
  have 1: "match_ws (u @ ?s1) = Some ?s1"
    using match_ws_run[OF u, of ?s1] dquote_not_ws by simp
  have 2: "match_quoted ?s1 = Some (k, ?s2)" by (rule match_quoted_field[OF fk])
  have 3: "match_ws ?s2 = Some ?s3"
    using match_ws_run[OF v, of ?s3] dquote_not_ws by simp
  have 4: "match_quoted ?s3 = Some (c, post)" by (rule match_quoted_field[OF fc])
  show ?thesis
    using p by (simp only: match_bind_at_def d 1 2 3 4 if_True option.case prod.case)
qed

lemma match_bind_at_Some:
  assumes "match_bind_at s = Some (k, c)"
  shows "\<exists>m post. s = m @ post \<and> binding_pattern k c m"
proof -
  from assms have p: "prefix (backslash # js ''bind'') s"
    by (auto simp: match_bind_at_def split: if_splits)
  with assms obtain s1 s2 s3 s4 where 1: "match_ws (drop 5 s) = Some s1"
    and 2: "match_quoted s1 = Some (k, s2)" and 3: "match_ws s2 = Some s3"
    and 4: "match_quoted s3 = Some (c, s4)"
    by (auto simp: match_bind_at_def split: if_splits option.splits)
  from p have s: "s = (backslash # js ''bind'') @ drop 5 s"
    using directive_length by (metis append_eq_conv_conj prefixE)
  from match_ws_Some[OF 1] obtain u where u: "ws_run u" "drop 5 s = u @ s1" by blast
  from match_quoted_Some[OF 2] have fk: "quoted_field k" and s1: "s1 = dquote # k @ dquote # s2"
    by simp_all
  from match_ws_Some[OF 3] obtain v where v: "ws_run v" "s2 = v @ s3" by blast
  from match_quoted_Some[OF 4] have fc: "quoted_field c" and s3: "s3 = dquote # c @ dquote # s4"
    by simp_all
  let ?m = "(backslash # js ''bind'') @ u @ dquote # k @ dquote # v @ dquote # c @ [dquote]"
  have "binding_pattern k c ?m"
    using u(1) v(1) fk fc by (auto simp: binding_pattern_def)
  moreover have "s = ?m @ s4"
    using s u(2) s1 v(2) s3 by (metis append.assoc append_Cons append_Nil)
  ultimately show ?thesis by blast
qed

lemma binding_pattern_nonempty: "binding_pattern k c m \<Longrightarrow> m \<noteq> []"
  by (auto simp: binding_pattern_def)

text \<open>
  The search of the regular expression finds a match exactly when the pattern of the
  grammar occurs in the text; a line of the grammar is matched at its start.
\<close>

lemma bindRegex_match_None_iff: "bindRegex_match t = None \<longleftrightarrow> \<not> pattern_occurs t"
proof (induction t)
  case Nil
  then show ?case
    by (auto simp: pattern_occurs_def dest: binding_pattern_nonempty)
next
  case (Cons x t)
  have here: "match_bind_at (x # t) = None \<longleftrightarrow>
                \<not> (\<exists>m post k c. x # t = m @ post \<and> binding_pattern k c m)"
  proof
    assume n: "match_bind_at (x # t) = None"
    show "\<not> (\<exists>m post k c. x # t = m @ post \<and> binding_pattern k c m)"
    proof
      assume "\<exists>m post k c. x # t = m @ post \<and> binding_pattern k c m"
      then obtain m post k c where "x # t = m @ post" "binding_pattern k c m" by blast
      then have "match_bind_at (x # t) = Some (k, c)" using match_bind_at_pattern by simp
      with n show False by simp
    qed
  next
    assume n: "\<not> (\<exists>m post k c. x # t = m @ post \<and> binding_pattern k c m)"
    show "match_bind_at (x # t) = None"
    proof (cases "match_bind_at (x # t)")
      case None
      then show ?thesis .
    next
      case (Some r)
      obtain k c where "r = (k, c)" by (cases r)
      with Some match_bind_at_Some[of "x # t" k c] n show ?thesis by blast
    qed
  qed
  have occ: "pattern_occurs (x # t) \<longleftrightarrow>
               (\<exists>m post k c. x # t = m @ post \<and> binding_pattern k c m) \<or> pattern_occurs t"
  proof
    assume "pattern_occurs (x # t)"
    then obtain pre m post k c where e: "x # t = pre @ m @ post" and b: "binding_pattern k c m"
      by (auto simp: pattern_occurs_def)
    show "(\<exists>m post k c. x # t = m @ post \<and> binding_pattern k c m) \<or> pattern_occurs t"
    proof (cases pre)
      case Nil
      with e b show ?thesis by auto
    next
      case (Cons y pre')
      with e have "t = pre' @ m @ post" by simp
      with b have "pattern_occurs t" unfolding pattern_occurs_def by blast
      then show ?thesis by simp
    qed
  next
    assume "(\<exists>m post k c. x # t = m @ post \<and> binding_pattern k c m) \<or> pattern_occurs t"
    then show "pattern_occurs (x # t)"
    proof
      assume "\<exists>m post k c. x # t = m @ post \<and> binding_pattern k c m"
      then obtain m post k c where "x # t = [] @ m @ post" "binding_pattern k c m" by auto
      then show ?thesis unfolding pattern_occurs_def by blast
    next
      assume "pattern_occurs t"
      then obtain pre m post k c where "t = pre @ m @ post" "binding_pattern k c m"
        by (auto simp: pattern_occurs_def)
      then have "x # t = (x # pre) @ m @ post" by simp
      with \<open>binding_pattern k c m\<close> show ?thesis unfolding pattern_occurs_def by blast
    qed
  qed
  have "bindRegex_match (x # t) = None \<longleftrightarrow>
          match_bind_at (x # t) = None \<and> bindRegex_match t = None"
    by (simp split: option.splits)
  then show ?case using here occ Cons.IH by simp
qed

lemma bindRegex_match_Some:
  "bindRegex_match t = Some (k, c) \<Longrightarrow> \<exists>pre m post. t = pre @ m @ post \<and> binding_pattern k c m"
proof (induction t)
  case Nil
  then show ?case by simp
next
  case (Cons x t)
  show ?case
  proof (cases "match_bind_at (x # t)")
    case None
    with Cons.prems have "bindRegex_match t = Some (k, c)" by simp
    from Cons.IH[OF this] obtain pre m post where "t = pre @ m @ post" "binding_pattern k c m"
      by blast
    then have "x # t = (x # pre) @ m @ post \<and> binding_pattern k c m" by simp
    then show ?thesis by blast
  next
    case (Some r)
    with Cons.prems have "match_bind_at (x # t) = Some (k, c)" by simp
    from match_bind_at_Some[OF this] obtain m post where "x # t = [] @ m @ post"
      "binding_pattern k c m" by auto
    then show ?thesis by blast
  qed
qed

lemma bindRegex_match_grammar_line:
  assumes "binding_pattern k c t"
  shows "bindRegex_match t = Some (k, c)"
proof -
  from assms obtain x xs where t: "t = x # xs"
    using binding_pattern_nonempty by (cases t) auto
  have "match_bind_at (t @ []) = Some (k, c)" using assms by (rule match_bind_at_pattern)
  then show ?thesis using t by simp
qed

lemma grammar_line_pattern_occurs: "grammar_line t \<Longrightarrow> pattern_occurs t"
proof -
  assume "grammar_line t"
  then obtain k c where "binding_pattern k c t" by (auto simp: grammar_line_def)
  then have "t = [] @ t @ [] \<and> binding_pattern k c t" by simp
  then show ?thesis unfolding pattern_occurs_def by blast
qed

lemma grammar_line_quotes:
  assumes "grammar_line t"
  shows "length (filter (\<lambda>x. x = dquote) t) = 4"
proof -
  from assms obtain k c u v where u: "ws_run u" and v: "ws_run v"
    and fk: "quoted_field k" and fc: "quoted_field c"
    and t: "t = (backslash # js ''bind'') @ u @ dquote # k @ dquote # v @ dquote # c @ [dquote]"
    by (auto simp: grammar_line_def binding_pattern_def)
  have n: "filter (\<lambda>x. x = dquote) w = []" if "dquote \<notin> set w" for w
    using that by (induction w) auto
  have "dquote \<notin> set u" "dquote \<notin> set v"
    using u v dquote_not_ws by (auto simp: ws_run_def list_all_iff)
  moreover have "dquote \<notin> set k" "dquote \<notin> set c"
    using fk fc by (auto simp: quoted_field_def)
  moreover have "backslash \<noteq> dquote" by (simp add: backslash_def dquote_def)
  moreover have "filter (\<lambda>x. x = dquote) (js ''bind'') = []" by (rule n) code_simp
  ultimately show ?thesis unfolding t by (simp add: n)
qed

subsection \<open>Spacing of the key-spec\<close>

lemma is_ws_space: "is_ws space"
  by (simp add: is_ws_def space_def)

lemma single_spaced_hd: "single_spaced s \<Longrightarrow> s \<noteq> [] \<and> \<not> is_ws (hd s)"
  by (induction s rule: single_spaced.induct) (auto split: if_splits)

lemma single_spaced_last: "single_spaced s \<Longrightarrow> \<not> is_ws (last s)"
  by (induction s rule: single_spaced.induct) (auto split: if_splits dest: single_spaced_hd)

text \<open>
  \<open>single_spaced\<close> in four conditions: the ends are not white space, the only white
  space is the space, and no two spaces are adjacent.
\<close>

lemma single_spaced_iff:
  "single_spaced s \<longleftrightarrow>
     s \<noteq> [] \<and> \<not> is_ws (hd s) \<and> \<not> is_ws (last s)
     \<and> (\<forall>c\<in>set s. is_ws c \<longrightarrow> c = space) \<and> \<not> adjacent space space s"
proof (induction s rule: single_spaced.induct)
  case 1
  then show ?case by simp
next
  case (2 c)
  then show ?case by auto
next
  case (3 c d cs)
  show ?case
  proof (cases "is_ws c")
    case True
    then show ?thesis by simp
  next
    case c: False
    then have cn: "c \<noteq> space" using is_ws_space by auto
    show ?thesis
    proof (cases "d = space")
      case True
      show ?thesis
      proof (cases cs)
        case Nil
        then show ?thesis using True c is_ws_space by simp
      next
        case (Cons e es)
        have "single_spaced (c # d # cs) = single_spaced cs" using c True by simp
        also have "\<dots> \<longleftrightarrow> cs \<noteq> [] \<and> \<not> is_ws (hd cs) \<and> \<not> is_ws (last cs)
            \<and> (\<forall>x\<in>set cs. is_ws x \<longrightarrow> x = space) \<and> \<not> adjacent space space cs"
          using "3.IH"(1)[OF c True] .
        also have "\<dots> \<longleftrightarrow> c # d # cs \<noteq> [] \<and> \<not> is_ws (hd (c # d # cs))
            \<and> \<not> is_ws (last (c # d # cs))
            \<and> (\<forall>x\<in>set (c # d # cs). is_ws x \<longrightarrow> x = space)
            \<and> \<not> adjacent space space (c # d # cs)"
          using c cn True Cons is_ws_space by (auto simp: adjacent_Cons)
        finally show ?thesis .
      qed
    next
      case False
      have "single_spaced (c # d # cs) = single_spaced (d # cs)" using c False by simp
      also have "\<dots> \<longleftrightarrow> d # cs \<noteq> [] \<and> \<not> is_ws (hd (d # cs)) \<and> \<not> is_ws (last (d # cs))
            \<and> (\<forall>x\<in>set (d # cs). is_ws x \<longrightarrow> x = space) \<and> \<not> adjacent space space (d # cs)"
        using "3.IH"(2)[OF c False] .
      also have "\<dots> \<longleftrightarrow> c # d # cs \<noteq> [] \<and> \<not> is_ws (hd (c # d # cs))
            \<and> \<not> is_ws (last (c # d # cs))
            \<and> (\<forall>x\<in>set (c # d # cs). is_ws x \<longrightarrow> x = space)
            \<and> \<not> adjacent space space (c # d # cs)"
        using c cn False by (auto simp: adjacent_Cons)
      finally show ?thesis .
    qed
  qed
qed

lemma adjacent_in_set: "adjacent a b s \<Longrightarrow> a \<in> set s"
  by (induction a b s rule: adjacent.induct) (auto split: if_splits)

lemma replaceAll_set: "set (replaceAll pat rep s) \<subseteq> set s \<union> set rep"
proof (induction "length s" arbitrary: s rule: less_induct)
  case less
  show ?case
  proof (cases s)
    case Nil
    then show ?thesis by simp
  next
    case (Cons c cs)
    show ?thesis
    proof (cases "pat \<noteq> [] \<and> prefix pat (c # cs)")
      case True
      let ?d = "drop (length pat) (c # cs)"
      have "length ?d < length s" using True Cons by (cases pat) auto
      then have "set (replaceAll pat rep ?d) \<subseteq> set ?d \<union> set rep" by (rule less.hyps)
      moreover have "set ?d \<subseteq> set s" using Cons by (metis set_drop_subset)
      moreover have "replaceAll pat rep s = rep @ replaceAll pat rep ?d" using True Cons by simp
      ultimately show ?thesis by auto
    next
      case False
      have "length cs < length s" using Cons by simp
      then have "set (replaceAll pat rep cs) \<subseteq> set cs \<union> set rep" by (rule less.hyps)
      moreover have "replaceAll pat rep s = c # replaceAll pat rep cs" using False Cons by auto
      ultimately show ?thesis using Cons by auto
    qed
  qed
qed

lemma replaceAll_ends:
  assumes "rep \<noteq> []"
  shows "s \<noteq> [] \<Longrightarrow>
           replaceAll pat rep s \<noteq> []
           \<and> (hd (replaceAll pat rep s) = hd s \<or> hd (replaceAll pat rep s) = hd rep)
           \<and> (last (replaceAll pat rep s) = last s \<or> last (replaceAll pat rep s) = last rep)"
proof (induction "length s" arbitrary: s rule: less_induct)
  case less
  from less.prems obtain c cs where s: "s = c # cs" by (cases s) auto
  show ?case
  proof (cases "pat \<noteq> [] \<and> prefix pat (c # cs)")
    case True
    let ?d = "drop (length pat) (c # cs)"
    let ?t = "replaceAll pat rep ?d"
    have eq: "replaceAll pat rep s = rep @ ?t" using True s by simp
    show ?thesis
    proof (cases "?d = []")
      case True
      then have "?t = []" by simp
      then show ?thesis using eq assms by simp
    next
      case False
      have "length ?d < length s" using True s by (cases pat) auto
      from less.hyps[OF this False]
      have t: "?t \<noteq> []" and l: "last ?t = last ?d \<or> last ?t = last rep" by simp_all
      have "last ?d = last s" using False s by (metis last_drop drop_eq_Nil not_le)
      then show ?thesis using eq assms t l by auto
    qed
  next
    case False
    let ?t = "replaceAll pat rep cs"
    have eq: "replaceAll pat rep s = c # ?t" using False s by auto
    show ?thesis
    proof (cases "cs = []")
      case True
      then show ?thesis using eq s by simp
    next
      case ne: False
      have "length cs < length s" using s by simp
      from less.hyps[OF this ne]
      have t: "?t \<noteq> []" and l: "last ?t = last cs \<or> last ?t = last rep" by simp_all
      then show ?thesis using eq s ne by auto
    qed
  qed
qed

text \<open>
  A global replacement by a text without white space keeps the elements separated by
  single spaces.
\<close>

lemma replaceAll_single_spaced:
  assumes "spaceless rep" and "single_spaced s"
  shows "single_spaced (replaceAll pat rep s)"
proof -
  from assms(1) have rn: "rep \<noteq> []" and rw: "\<forall>c\<in>set rep. \<not> is_ws c"
    by (auto simp: spaceless_def list_ex_iff)
  from rw have rs: "space \<notin> set rep" using is_ws_space by auto
  from rn rw have rh: "\<not> is_ws (hd rep)" and rl: "\<not> is_ws (last rep)" by auto
  from assms(2) have sn: "s \<noteq> []" and sh: "\<not> is_ws (hd s)" and sl: "\<not> is_ws (last s)"
    and sw: "\<forall>c\<in>set s. is_ws c \<longrightarrow> c = space" and sa: "\<not> adjacent space space s"
    by (simp_all add: single_spaced_iff)
  let ?t = "replaceAll pat rep s"
  from replaceAll_ends[OF rn sn, of pat]
  have tn: "?t \<noteq> []" and th: "\<not> is_ws (hd ?t)" and tl: "\<not> is_ws (last ?t)"
    using sh sl rh rl by auto
  have tw: "\<forall>c\<in>set ?t. is_ws c \<longrightarrow> c = space"
    using replaceAll_set[of pat rep s] sw rw by auto
  have "\<not> adjacent space space rep" using rs adjacent_in_set by blast
  moreover have "hd rep \<noteq> space" "last rep \<noteq> space" using rh rl is_ws_space by auto
  ultimately have ta: "\<not> adjacent space space ?t"
    using replaceAll_keeps_no_adjacent[of space space rep s pat] rn sa by blast
  show ?thesis using tn th tl tw ta by (simp add: single_spaced_iff)
qed

lemma spaceless_texts:
  "spaceless (js ''Alt+'')" "spaceless (js ''Ctrl+'')" "spaceless (js ''Shift+'')"
  "spaceless (js ''Space'')" "spaceless (js ''Enter'')" "spaceless (js ''Backspace'')"
  "spaceless (js ''Delete'')" "spaceless (js ''Tab'')" "spaceless (js ''Escape'')"
  "spaceless (js ''ArrowUp'')" "spaceless (js ''ArrowDown'')" "spaceless (js ''ArrowLeft'')"
  "spaceless (js ''ArrowRight'')" "spaceless (js ''PageUp'')" "spaceless (js ''PageDown'')"
  "spaceless (js ''Home'')" "spaceless (js ''End'')"
  by code_simp+

text \<open>
  Normalization keeps the spacing of the key-spec: its replacement texts have no white
  space, and the replacements by the empty text never apply.
\<close>

lemma normalizeKeySequence_single_spaced:
  assumes "single_spaced k"
  shows "single_spaced (normalizeKeySequence k)"
proof -
  have "single_spaced (normalizeModifiers k)"
    unfolding normalizeModifiers_def
    by (intro replaceAll_single_spaced spaceless_texts assms)
  then have "single_spaced (normalizeSpecialKeys (normalizeModifiers k))"
    unfolding normalizeSpecialKeys_def
    by (intro replaceAll_single_spaced spaceless_texts)
  then show ?thesis by (simp add: stripNegatedModifiers_never_strips)
qed

subsection \<open>Malformed lines\<close>

lemma split_no_separator: "sep \<notin> set s \<Longrightarrow> split sep s = [s]"
  by (induction s) auto

lemma parseBindLine_returns: "\<exists>r. parseBindLine line = Inr r"
  by (auto simp: parseBindLine_def split: option.splits)

lemma directive_not_comment:
  assumes "startsWith t (backslash # js ''bind'')"
  shows "t \<noteq> [] \<and> \<not> startsWith t (js ''#'')"
proof -
  from assms have p: "prefix (backslash # js ''bind'') t" by (simp add: startsWith_def)
  then have ne: "t \<noteq> []" by auto
  from p have "hd t = backslash" by (auto simp: prefix_def)
  then show ?thesis
    using ne by (cases t) (auto simp: startsWith_def js_def backslash_def)
qed

lemma directive_without_pattern_malformed:
  "directive_without_pattern line \<Longrightarrow> malformed line"
  using grammar_line_pattern_occurs
  by (auto simp: directive_without_pattern_def malformed_def)

text \<open>A directive without the pattern is skipped, with the warning that carries its text.\<close>

lemma parse_line_without_pattern:
  assumes "directive_without_pattern line"
  shows "parse_line n line st = (fst st, snd st @ [Warn_invalid_bind_line_format (trim line)])"
proof -
  from assms have d: "startsWith (trim line) (backslash # js ''bind'')"
    and m: "bindRegex_match (trim line) = None"
    by (simp_all add: directive_without_pattern_def binding_directive_def
                      bindRegex_match_None_iff)
  from directive_not_comment[OF d] d m show ?thesis
    by (simp add: parse_line_def Let_def parseBindLine_def)
qed

text \<open>
  A directive in which the pattern occurs is compiled from an occurrence of it, whatever
  surrounds the occurrence, and nothing but the debug message is logged.
\<close>

lemma parse_line_with_pattern:
  assumes "binding_directive line" and "pattern_occurs (trim line)"
  shows "\<exists>k c pre m post.
           trim line = pre @ m @ post \<and> binding_pattern k c m
           \<and> parse_line n line st =
               (AList.update (normalizeKeySequence k)
                  \<lparr>keySequence = normalizeKeySequence k, originalKeySequence = k,
                   command = c, action = parseCommand c\<rparr> (fst st),
                snd st @ [Debug_parsed_binding (normalizeKeySequence k) c])"
proof -
  from assms(1) have d: "startsWith (trim line) (backslash # js ''bind'')"
    by (simp add: binding_directive_def)
  from assms(2) have "bindRegex_match (trim line) \<noteq> None"
    by (simp add: bindRegex_match_None_iff)
  then obtain k c where m: "bindRegex_match (trim line) = Some (k, c)" by auto
  from bindRegex_match_Some[OF m] obtain pre mm post
    where o: "trim line = pre @ mm @ post" "binding_pattern k c mm" by blast
  have "parse_line n line st =
               (AList.update (normalizeKeySequence k)
                  \<lparr>keySequence = normalizeKeySequence k, originalKeySequence = k,
                   command = c, action = parseCommand c\<rparr> (fst st),
                snd st @ [Debug_parsed_binding (normalizeKeySequence k) c])"
    using directive_not_comment[OF d] d m
    by (simp add: parse_line_def Let_def parseBindLine_def)
  with o show ?thesis by blast
qed

lemma parse_line_distinct:
  "distinct (map fst (fst st)) \<Longrightarrow> distinct (map fst (fst (parse_line n line st)))"
  by (auto simp: parse_line_def Let_def parseBindLine_def distinct_update split: option.splits)

lemma parse_line_no_line_number:
  "Warn_failed_to_parse_line m l \<in> set (snd (parse_line n line st))
     \<Longrightarrow> Warn_failed_to_parse_line m l \<in> set (snd st)"
  by (auto simp: parse_line_def Let_def parseBindLine_def split: option.splits if_splits)

lemma parse_line_log_grows: "x \<in> set (snd st) \<Longrightarrow> x \<in> set (snd (parse_line n line st))"
  by (auto simp: parse_line_def Let_def parseBindLine_def split: option.splits)

lemma parse_line_table_indep:
  "fst (parse_line n line st) = fst (parse_line n' line (fst st, lg'))"
  by (auto simp: parse_line_def Let_def parseBindLine_def split: option.splits)

lemma parse_lines_log_grows: "x \<in> set (snd st) \<Longrightarrow> x \<in> set (snd (parse_lines ls n st))"
  by (induction ls arbitrary: n st) (auto simp: parse_line_log_grows)

lemma parse_lines_no_line_number:
  "Warn_failed_to_parse_line m l \<in> set (snd (parse_lines ls n st))
     \<Longrightarrow> Warn_failed_to_parse_line m l \<in> set (snd st)"
proof (induction ls arbitrary: n st)
  case Nil
  then show ?case by simp
next
  case (Cons line ls)
  from Cons.prems
  have "Warn_failed_to_parse_line m l
          \<in> set (snd (parse_lines ls (n + 1) (parse_line (n + 1) line st)))"
    by simp
  from Cons.IH[OF this] show ?case by (rule parse_line_no_line_number)
qed

lemma parse_lines_distinct:
  "distinct (map fst (fst st)) \<Longrightarrow> distinct (map fst (fst (parse_lines ls n st)))"
  by (induction ls arbitrary: n st) (simp_all add: parse_line_distinct)

lemma parse_lines_reports:
  assumes "i < length ls" and "directive_without_pattern (ls ! i)"
  shows "Warn_invalid_bind_line_format (trim (ls ! i)) \<in> set (snd (parse_lines ls n st))"
  using assms
proof (induction ls arbitrary: i n st)
  case Nil
  then show ?case by simp
next
  case (Cons line ls)
  show ?case
  proof (cases i)
    case 0
    with Cons.prems have "directive_without_pattern line" by simp
    then have "Warn_invalid_bind_line_format (trim line)
                 \<in> set (snd (parse_line (n + 1) line st))"
      by (simp add: parse_line_without_pattern)
    then show ?thesis using 0 by (simp add: parse_lines_log_grows)
  next
    case (Suc j)
    with Cons.prems have "j < length ls" "directive_without_pattern (ls ! j)" by simp_all
    from Cons.IH[OF this] show ?thesis using Suc by simp
  qed
qed

lemma parse_lines_skips:
  "fst (parse_lines ls n st) =
     fst (parse_lines (filter (\<lambda>l. \<not> directive_without_pattern l) ls) n' (fst st, lg'))"
proof (induction ls arbitrary: n n' st lg')
  case Nil
  then show ?case by simp
next
  case (Cons line ls)
  let ?keep = "filter (\<lambda>l. \<not> directive_without_pattern l)"
  let ?st1 = "parse_line (n + 1) line st"
  have step: "fst (parse_lines (line # ls) n st) = fst (parse_lines ls (n + 1) ?st1)"
    by simp
  show ?case
  proof (cases "directive_without_pattern line")
    case True
    then have a: "fst ?st1 = fst st" by (simp add: parse_line_without_pattern)
    have "fst (parse_lines ls (n + 1) ?st1) = fst (parse_lines (?keep ls) n' (fst ?st1, lg'))"
      by (rule Cons.IH)
    also have "\<dots> = fst (parse_lines (?keep ls) n' (fst st, lg'))"
      by (simp only: a)
    also have "\<dots> = fst (parse_lines (?keep (line # ls)) n' (fst st, lg'))"
      using True by simp
    finally show ?thesis using step by simp
  next
    case False
    let ?st2 = "parse_line (n' + 1) line (fst st, lg')"
    have "fst ?st2 = fst ?st1" by (rule parse_line_table_indep[symmetric])
    then have b: "(fst ?st1, snd ?st2) = ?st2" by (metis prod.collapse)
    have "fst (parse_lines ls (n + 1) ?st1)
            = fst (parse_lines (?keep ls) (n' + 1) (fst ?st1, snd ?st2))"
      by (rule Cons.IH)
    also have "\<dots> = fst (parse_lines (?keep ls) (n' + 1) ?st2)"
      by (simp only: b)
    also have "\<dots> = fst (parse_lines (?keep (line # ls)) n' (fst st, lg'))"
      using False by simp
    finally show ?thesis using step by simp
  qed
qed

text \<open>The two malformed directives of the examples.\<close>

lemma bind_oops_without_pattern: "directive_without_pattern (backslash # js ''bind oops'')"
proof -
  have "binding_directive (backslash # js ''bind oops'')" by code_simp
  moreover have "bindRegex_match (trim (backslash # js ''bind oops'')) = None" by code_simp
  ultimately show ?thesis
    by (simp add: directive_without_pattern_def bindRegex_match_None_iff)
qed

lemma third_field_malformed:
  "malformed line_with_third_field \<and> pattern_occurs (trim line_with_third_field)"
proof -
  have d: "binding_directive line_with_third_field" by code_simp
  have "length (filter (\<lambda>x. x = dquote) (trim line_with_third_field)) = 6" by code_simp
  then have g: "\<not> grammar_line (trim line_with_third_field)"
    using grammar_line_quotes by fastforce
  have "bindRegex_match (trim line_with_third_field) \<noteq> None" by code_simp
  then have "pattern_occurs (trim line_with_third_field)"
    by (simp add: bindRegex_match_None_iff)
  with d g show ?thesis by (simp add: malformed_def)
qed

text \<open>
  C4. The claim: every malformed line is skipped and reported to the log together with
  its 1-based line number. The code at a text whose line 2 is \<open>\bind oops\<close>: the line
  is skipped, and the log holds the warning of \<open>parseBindLine\<close>, which carries the text
  of the line and no line number; the warning with the line number is not issued. The
  code at the line \<open>\bind "a" "self-insert x" "c"\<close>, which the grammar excludes for its
  third field: the line is not skipped; its first two fields are compiled to a binding
  and nothing is reported.
\<close>

theorem malformed_line_reported_without_number:
  "malformed (backslash # js ''bind oops'')
   \<and> snd (parse config_with_malformed_line) =
       [Warn_invalid_bind_line_format (backslash # js ''bind oops''),
        Debug_parsed_binding (js ''Alt+m f'') (js ''math-insert '' @ backslash # js ''frac''),
        Info_parsed_count 1]
   \<and> Warn_failed_to_parse_line 2 (backslash # js ''bind oops'')
        \<notin> set (snd (parse config_with_malformed_line))
   \<and> malformed line_with_third_field
   \<and> map fst (fst (parse line_with_third_field)) = [js ''a'']
   \<and> snd (parse line_with_third_field) =
       [Debug_parsed_binding (js ''a'') (js ''self-insert x''), Info_parsed_count 1]"
proof -
  have 1: "malformed (backslash # js ''bind oops'')"
    using bind_oops_without_pattern by (rule directive_without_pattern_malformed)
  have 2: "snd (parse config_with_malformed_line) =
       [Warn_invalid_bind_line_format (backslash # js ''bind oops''),
        Debug_parsed_binding (js ''Alt+m f'') (js ''math-insert '' @ backslash # js ''frac''),
        Info_parsed_count 1]"
    by code_simp
  have 3: "Warn_failed_to_parse_line 2 (backslash # js ''bind oops'')
        \<notin> set (snd (parse config_with_malformed_line))"
    by code_simp
  have 4: "map fst (fst (parse line_with_third_field)) = [js ''a'']" by code_simp
  have 5: "snd (parse line_with_third_field) =
       [Debug_parsed_binding (js ''a'') (js ''self-insert x''), Info_parsed_count 1]"
    by code_simp
  show ?thesis using 1 2 3 4 5 third_field_malformed by simp
qed

text \<open>
  C4 as amended. \<open>parse\<close> returns a table for every text (it is a total function, and
  \<open>parseBindLine\<close> never throws), with unique keys. Of the malformed lines, those in
  which the pattern of the grammar occurs nowhere are skipped: the iteration on such a
  line leaves the table as it was and appends one warning, which carries the trimmed
  text of the line and no line number; the table is the one that the text without these
  lines gives, each of them has its warning in the log, and the log never holds the
  warning that carries a line number. A malformed line in which the pattern does occur
  (with a further field, or other text before or after) is not skipped: an occurrence of
  the pattern is compiled to a binding, and nothing is reported.
\<close>

theorem parse_skips_and_reports_malformed_lines:
  "(\<exists>r. parseBindLine line = Inr r)
   \<and> distinct (map fst (fst (parse content)))
   \<and> (directive_without_pattern line \<longrightarrow>
         malformed line
         \<and> parse_line n line st
             = (fst st, snd st @ [Warn_invalid_bind_line_format (trim line)]))
   \<and> (malformed line \<and> \<not> directive_without_pattern line \<longrightarrow>
         (\<exists>k c pre m post.
            trim line = pre @ m @ post \<and> binding_pattern k c m
            \<and> parse_line n line st =
                (AList.update (normalizeKeySequence k)
                   \<lparr>keySequence = normalizeKeySequence k, originalKeySequence = k,
                    command = c, action = parseCommand c\<rparr> (fst st),
                 snd st @ [Debug_parsed_binding (normalizeKeySequence k) c])))
   \<and> fst (parse content)
       = fst (parse_lines
                (filter (\<lambda>l. \<not> directive_without_pattern l) (split newline content))
                0 ([], []))
   \<and> (i < length (split newline content)
        \<and> directive_without_pattern (split newline content ! i) \<longrightarrow>
         Warn_invalid_bind_line_format (trim (split newline content ! i))
           \<in> set (snd (parse content)))
   \<and> Warn_failed_to_parse_line j l \<notin> set (snd (parse content))"
proof -
  have 1: "distinct (map fst (fst (parse content)))"
    using parse_lines_distinct[of "([], [])" "split newline content" 0]
    by (simp add: parse_def Let_def)
  have 2: "fst (parse content)
       = fst (parse_lines
                (filter (\<lambda>l. \<not> directive_without_pattern l) (split newline content))
                0 ([], []))"
    using parse_lines_skips[of "split newline content" 0 "([], [])" 0 "[]"]
    by (simp add: parse_def Let_def)
  have 3: "Warn_invalid_bind_line_format (trim (split newline content ! i))
           \<in> set (snd (parse content))"
    if "i < length (split newline content)"
       "directive_without_pattern (split newline content ! i)"
    using parse_lines_reports[OF that, of 0 "([], [])"]
    by (simp add: parse_def Let_def)
  have 4: "Warn_failed_to_parse_line j l \<notin> set (snd (parse content))"
    using parse_lines_no_line_number[of j l "split newline content" 0 "([], [])"]
    by (auto simp: parse_def Let_def)
  have 5: "\<exists>k c pre m post.
            trim line = pre @ m @ post \<and> binding_pattern k c m
            \<and> parse_line n line st =
                (AList.update (normalizeKeySequence k)
                   \<lparr>keySequence = normalizeKeySequence k, originalKeySequence = k,
                    command = c, action = parseCommand c\<rparr> (fst st),
                 snd st @ [Debug_parsed_binding (normalizeKeySequence k) c])"
    if "malformed line" "\<not> directive_without_pattern line"
  proof -
    from that have "binding_directive line" "pattern_occurs (trim line)"
      by (auto simp: malformed_def directive_without_pattern_def)
    then show ?thesis by (rule parse_line_with_pattern)
  qed
  have c3: "directive_without_pattern line \<longrightarrow>
         malformed line
         \<and> parse_line n line st
             = (fst st, snd st @ [Warn_invalid_bind_line_format (trim line)])"
    using parse_line_without_pattern[of line n st] directive_without_pattern_malformed[of line]
    by simp
  have c4: "malformed line \<and> \<not> directive_without_pattern line \<longrightarrow>
         (\<exists>k c pre m post.
            trim line = pre @ m @ post \<and> binding_pattern k c m
            \<and> parse_line n line st =
                (AList.update (normalizeKeySequence k)
                   \<lparr>keySequence = normalizeKeySequence k, originalKeySequence = k,
                    command = c, action = parseCommand c\<rparr> (fst st),
                 snd st @ [Debug_parsed_binding (normalizeKeySequence k) c]))"
    using 5 by (intro impI) (elim conjE)
  have c6: "i < length (split newline content)
        \<and> directive_without_pattern (split newline content ! i) \<longrightarrow>
         Warn_invalid_bind_line_format (trim (split newline content ! i))
           \<in> set (snd (parse content))"
    using 3 by (intro impI) (elim conjE)
  show ?thesis
    using parseBindLine_returns[of line] 1 c3 c4 2 c6 4
    by - (intro conjI, assumption+)
qed

text \<open>
  The theorem at the two malformed lines above: \<open>\bind oops\<close>, line 2 of its text, is
  skipped with its warning; the line with a third field is compiled under the key \<open>a\<close>.
\<close>

theorem parse_skips_and_reports_malformed_lines_witness:
  "directive_without_pattern (backslash # js ''bind oops'')
   \<and> malformed (backslash # js ''bind oops'')
   \<and> parse_line 2 (backslash # js ''bind oops'') ([], [])
       = ([], [Warn_invalid_bind_line_format (trim (backslash # js ''bind oops''))])
   \<and> 1 < length (split newline config_with_malformed_line)
   \<and> directive_without_pattern (split newline config_with_malformed_line ! 1)
   \<and> Warn_invalid_bind_line_format (trim (split newline config_with_malformed_line ! 1))
        \<in> set (snd (parse config_with_malformed_line))
   \<and> map fst (fst (parse config_with_malformed_line)) = [js ''Alt+m f'']
   \<and> malformed line_with_third_field
   \<and> pattern_occurs (trim line_with_third_field)
   \<and> (\<exists>k c pre m post.
         trim line_with_third_field = pre @ m @ post \<and> binding_pattern k c m
         \<and> parse_line 1 line_with_third_field ([], []) =
             (AList.update (normalizeKeySequence k)
                \<lparr>keySequence = normalizeKeySequence k, originalKeySequence = k,
                 command = c, action = parseCommand c\<rparr> [],
              [Debug_parsed_binding (normalizeKeySequence k) c]))"
proof -
  have h1: "directive_without_pattern (backslash # js ''bind oops'')"
    by (rule bind_oops_without_pattern)
  have h2: "1 < length (split newline config_with_malformed_line)" by code_simp
  have h3: "split newline config_with_malformed_line ! 1 = backslash # js ''bind oops''"
    by code_simp
  have h4: "directive_without_pattern (split newline config_with_malformed_line ! 1)"
    using h1 h3 by simp
  have h5: "map fst (fst (parse config_with_malformed_line)) = [js ''Alt+m f'']" by code_simp
  have h6: "malformed line_with_third_field" "pattern_occurs (trim line_with_third_field)"
    using third_field_malformed by simp_all
  then have h7: "\<not> directive_without_pattern line_with_third_field"
    by (simp add: directive_without_pattern_def)
  note T1 = parse_skips_and_reports_malformed_lines
              [of "backslash # js ''bind oops''" config_with_malformed_line 2 "([], [])" 1]
  note T2 = parse_skips_and_reports_malformed_lines
              [of line_with_third_field config_with_malformed_line 1 "([], [])" 1]
  from T1[THEN conjunct2, THEN conjunct2, THEN conjunct1] h1
  have a: "malformed (backslash # js ''bind oops'')
     \<and> parse_line 2 (backslash # js ''bind oops'') ([], [])
       = ([], [Warn_invalid_bind_line_format (trim (backslash # js ''bind oops''))])"
    by simp
  from T1[THEN conjunct2, THEN conjunct2, THEN conjunct2, THEN conjunct2, THEN conjunct2,
          THEN conjunct1] h2 h4
  have b: "Warn_invalid_bind_line_format (trim (split newline config_with_malformed_line ! 1))
        \<in> set (snd (parse config_with_malformed_line))"
    by - (elim impE, intro conjI, assumption+)
  from T2[THEN conjunct2, THEN conjunct2, THEN conjunct2, THEN conjunct1] h6(1) h7
  have c: "\<exists>k c pre m post.
         trim line_with_third_field = pre @ m @ post \<and> binding_pattern k c m
         \<and> parse_line 1 line_with_third_field ([], []) =
             (AList.update (normalizeKeySequence k)
                \<lparr>keySequence = normalizeKeySequence k, originalKeySequence = k,
                 command = c, action = parseCommand c\<rparr> [],
              [Debug_parsed_binding (normalizeKeySequence k) c])"
    by simp
  from a have a1: "malformed (backslash # js ''bind oops'')"
    and a2: "parse_line 2 (backslash # js ''bind oops'') ([], [])
       = ([], [Warn_invalid_bind_line_format (trim (backslash # js ''bind oops''))])"
    by simp_all
  show ?thesis
    using h1 h2 h4 h5 h6 a1 a2 b c by - (intro conjI, assumption+)
qed

subsection \<open>Well-formed lines\<close>

lemma ws_words_skip_space: "cs \<noteq> [] \<Longrightarrow> ws_words (space # cs) = ws_words cs"
  by (cases cs) (simp_all add: is_ws_space)

lemma split_single_spaced: "single_spaced s \<Longrightarrow> split space s = ws_words s"
proof (induction s rule: single_spaced.induct)
  case 1
  then show ?case by simp
next
  case (2 c)
  then have "c \<noteq> space" using is_ws_space by auto
  with 2 show ?case by simp
next
  case (3 c d cs)
  from "3.prems" have c: "\<not> is_ws c" by (simp split: if_splits)
  then have cs: "c \<noteq> space" using is_ws_space by auto
  show ?case
  proof (cases "d = space")
    case True
    with "3.prems" c have ss: "single_spaced cs" by simp
    then have ne: "cs \<noteq> []" using single_spaced_hd by blast
    from "3.IH"(1)[OF c True ss] have ih: "split space cs = ws_words cs" .
    show ?thesis
      using True c cs ih ws_words_skip_space[OF ne] is_ws_space by simp
  next
    case False
    with "3.prems" c have ss: "single_spaced (d # cs)" by simp
    then have d: "\<not> is_ws d" using single_spaced_hd[OF ss] by simp
    from "3.IH"(2)[OF c False ss] have ih: "split space (d # cs) = ws_words (d # cs)" .
    show ?thesis
      using c cs d ih by simp
  qed
qed

text \<open>The lines that \<open>bind_line\<close> builds are lines of the grammar.\<close>

lemma bind_line_pattern:
  assumes "quoted_field k" and "quoted_field c"
  shows "binding_pattern k c (bind_line k c)"
proof -
  have w: "ws_run [space]" by (simp add: ws_run_def is_ws_space)
  have "bind_line k c =
          (backslash # js ''bind'') @ [space] @ dquote # k @ dquote # [space] @ dquote # c @ [dquote]"
    by (simp add: bind_line_def js_def space_def)
  then show ?thesis
    using assms w unfolding binding_pattern_def by blast
qed

text \<open>
  C5. The claim: the sequence serialization of the binding of a well-formed line has no
  leading or trailing space, and as many tokens as the normalized key-spec has elements.
  The code at the line \<open>\bind " a  b" "self-insert x"\<close>: it is a line of the grammar; its
  binding is registered under the key-spec as it stands, with its leading space; split
  on spaces it has four tokens (two of them empty), and the key-spec has two elements.
\<close>

theorem key_spec_spaces_kept:
  "binding_pattern (js '' a  b'') (js ''self-insert x'') (trim line_with_spaced_key_spec)
   \<and> map fst (fst (parse line_with_spaced_key_spec)) = [js '' a  b'']
   \<and> hd (js '' a  b'') = space
   \<and> split space (js '' a  b'') = [[], js ''a'', [], js ''b'']
   \<and> ws_words (normalizeKeySequence (js '' a  b'')) = [js ''a'', js ''b'']"
proof -
  have "quoted_field (js '' a  b'')" "quoted_field (js ''self-insert x'')" by code_simp+
  then have "binding_pattern (js '' a  b'') (js ''self-insert x'')
               (bind_line (js '' a  b'') (js ''self-insert x''))"
    by (rule bind_line_pattern)
  moreover have "trim line_with_spaced_key_spec
                   = bind_line (js '' a  b'') (js ''self-insert x'')"
    by code_simp
  ultimately have 1: "binding_pattern (js '' a  b'') (js ''self-insert x'')
                        (trim line_with_spaced_key_spec)"
    by simp
  have 2: "map fst (fst (parse line_with_spaced_key_spec)) = [js '' a  b'']" by code_simp
  have 3: "hd (js '' a  b'') = space" by code_simp
  have 4: "split space (js '' a  b'') = [[], js ''a'', [], js ''b'']" by code_simp
  have 5: "ws_words (normalizeKeySequence (js '' a  b'')) = [js ''a'', js ''b'']" by code_simp
  show ?thesis using 1 2 3 4 5 by - (intro conjI, assumption+)
qed

text \<open>
  C5 as amended. A well-formed line (one line of the text, whose trimmed content is a
  line of the grammar with the fields \<open>keySpec\<close> and \<open>commandSpec\<close>) compiles to
  exactly one binding, registered under the normalized key-spec as
  \<open>normalizeKeySequence\<close> returns it, neither trimmed nor re-joined. When the elements
  of the key-spec as written are separated by single spaces, with no white space before
  the first or after the last, so are those of the normalized key-spec: the
  serialization neither starts nor ends with a space, and its tokens (split on spaces)
  are the elements of the normalized key-spec, so there are as many.
\<close>

theorem well_formed_line_one_binding:
  assumes "newline \<notin> set line"
    and "binding_pattern keySpec commandSpec (trim line)"
  shows "fst (parse line) =
           [(normalizeKeySequence keySpec,
             \<lparr>keySequence = normalizeKeySequence keySpec,
              originalKeySequence = keySpec,
              command = commandSpec,
              action = parseCommand commandSpec\<rparr>)]
         \<and> (single_spaced keySpec \<longrightarrow>
               single_spaced (normalizeKeySequence keySpec)
               \<and> hd (normalizeKeySequence keySpec) \<noteq> space
               \<and> last (normalizeKeySequence keySpec) \<noteq> space
               \<and> split space (normalizeKeySequence keySpec)
                   = ws_words (normalizeKeySequence keySpec)
               \<and> length (split space (normalizeKeySequence keySpec))
                   = length (ws_words (normalizeKeySequence keySpec)))"
proof -
  from assms(2) have "prefix (backslash # js ''bind'') (trim line)"
    by (auto simp: binding_pattern_def)
  then have d: "startsWith (trim line) (backslash # js ''bind'')"
    by (simp add: startsWith_def)
  have m: "bindRegex_match (trim line) = Some (keySpec, commandSpec)"
    using assms(2) by (rule bindRegex_match_grammar_line)
  have "parse_line 1 line ([], []) =
          ([(normalizeKeySequence keySpec,
             \<lparr>keySequence = normalizeKeySequence keySpec,
              originalKeySequence = keySpec,
              command = commandSpec,
              action = parseCommand commandSpec\<rparr>)],
           [Debug_parsed_binding (normalizeKeySequence keySpec) commandSpec])"
    using directive_not_comment[OF d] d m
    by (simp add: parse_line_def Let_def parseBindLine_def)
  then have table: "fst (parse line) =
           [(normalizeKeySequence keySpec,
             \<lparr>keySequence = normalizeKeySequence keySpec,
              originalKeySequence = keySpec,
              command = commandSpec,
              action = parseCommand commandSpec\<rparr>)]"
    using split_no_separator[OF assms(1)] by (simp add: parse_def Let_def)
  have spaced: "single_spaced (normalizeKeySequence keySpec)
               \<and> hd (normalizeKeySequence keySpec) \<noteq> space
               \<and> last (normalizeKeySequence keySpec) \<noteq> space
               \<and> split space (normalizeKeySequence keySpec)
                   = ws_words (normalizeKeySequence keySpec)
               \<and> length (split space (normalizeKeySequence keySpec))
                   = length (ws_words (normalizeKeySequence keySpec))"
    if "single_spaced keySpec"
  proof -
    let ?s = "normalizeKeySequence keySpec"
    have s: "single_spaced ?s" using that by (rule normalizeKeySequence_single_spaced)
    show ?thesis
      using s single_spaced_hd[OF s] single_spaced_last[OF s] split_single_spaced[OF s]
        is_ws_space
      by auto
  qed
  show ?thesis
  proof (intro conjI impI)
    show "fst (parse line) =
           [(normalizeKeySequence keySpec,
             \<lparr>keySequence = normalizeKeySequence keySpec,
              originalKeySequence = keySpec,
              command = commandSpec,
              action = parseCommand commandSpec\<rparr>)]"
      by (rule table)
  qed (simp_all add: spaced)
qed

text \<open>The theorem at the line \<open>\bind "M-m g a" "math-insert \alpha"\<close> of the specification.\<close>

theorem well_formed_line_one_binding_witness:
  "newline \<notin> set (bind_line (js ''M-m g a'') (js ''math-insert '' @ backslash # js ''alpha''))
   \<and> binding_pattern (js ''M-m g a'') (js ''math-insert '' @ backslash # js ''alpha'')
        (trim (bind_line (js ''M-m g a'') (js ''math-insert '' @ backslash # js ''alpha'')))
   \<and> single_spaced (js ''M-m g a'')
   \<and> normalizeKeySequence (js ''M-m g a'') = js ''Alt+m g a''
   \<and> single_spaced (normalizeKeySequence (js ''M-m g a''))
   \<and> map fst (fst (parse (bind_line (js ''M-m g a'')
                              (js ''math-insert '' @ backslash # js ''alpha''))))
       = [normalizeKeySequence (js ''M-m g a'')]
   \<and> length (split space (normalizeKeySequence (js ''M-m g a'')))
       = length (ws_words (normalizeKeySequence (js ''M-m g a'')))
   \<and> ws_words (normalizeKeySequence (js ''M-m g a'')) = [js ''Alt+m'', js ''g'', js ''a'']"
proof -
  let ?k = "js ''M-m g a''"
  let ?c = "js ''math-insert '' @ backslash # js ''alpha''"
  have h1: "newline \<notin> set (bind_line ?k ?c)" by code_simp
  have "quoted_field ?k" "quoted_field ?c" by code_simp+
  then have "binding_pattern ?k ?c (bind_line ?k ?c)" by (rule bind_line_pattern)
  moreover have "trim (bind_line ?k ?c) = bind_line ?k ?c" by code_simp
  ultimately have h2: "binding_pattern ?k ?c (trim (bind_line ?k ?c))" by simp
  have h3: "single_spaced ?k" by code_simp
  have e1: "normalizeKeySequence ?k = js ''Alt+m g a''" by code_simp
  have e2: "ws_words (normalizeKeySequence ?k) = [js ''Alt+m'', js ''g'', js ''a'']"
    by code_simp
  note T = well_formed_line_one_binding[OF h1 h2]
  from T[THEN conjunct1]
  have t: "map fst (fst (parse (bind_line ?k ?c))) = [normalizeKeySequence ?k]" by simp
  from T[THEN conjunct2] h3
  have s: "single_spaced (normalizeKeySequence ?k)"
    and l: "length (split space (normalizeKeySequence ?k))
              = length (ws_words (normalizeKeySequence ?k))"
    by simp_all
  show ?thesis
    using h1 h2 h3 e1 s t l e2 by - (intro conjI, assumption+)
qed

section \<open>Properties of exportBindings and importBindings\<close>

lemma update_fresh: "k \<notin> fst ` set acc \<Longrightarrow> AList.update k v acc = acc @ [(k, v)]"
  by (induction acc) auto

lemma fold_update_fresh:
  assumes "distinct (map fst T)" and "fst ` set T \<inter> fst ` set acc = {}"
  shows "fold (\<lambda>(k, v). AList.update k v) T acc = acc @ T"
  using assms
proof (induction T arbitrary: acc)
  case Nil
  then show ?case by simp
next
  case (Cons p T)
  obtain k v where p: "p = (k, v)" by (cases p)
  from Cons.prems p have fresh: "k \<notin> fst ` set acc" by auto
  from Cons.prems p have d: "distinct (map fst T)" and k: "k \<notin> fst ` set T" by auto
  from Cons.prems p k have "fst ` set T \<inter> fst ` set (acc @ [(k, v)]) = {}" by auto
  from Cons.IH[OF d this] show ?case using p fresh by (simp add: update_fresh)
qed

lemma Map_of_entries_distinct: "distinct (map fst T) \<Longrightarrow> Map_of_entries T = T"
  using fold_update_fresh[of T "[]"] by (simp add: Map_of_entries_def)

lemma fold_object_set:
  assumes "js ''__proto__'' \<notin> fst ` set T"
  shows "fold (\<lambda>(k, v). object_set k v) T obj =
           obj\<lparr>props := fold (\<lambda>(k, v). AList.update k v) T (props obj)\<rparr>"
  using assms
proof (induction T arbitrary: obj)
  case Nil
  then show ?case by simp
next
  case (Cons p T)
  obtain k v where p: "p = (k, v)" by (cases p)
  with Cons.prems have k: "k \<noteq> js ''__proto__''" and T: "js ''__proto__'' \<notin> fst ` set T"
    by auto
  show ?case using Cons.IH[OF T] p k by (simp add: object_set_def)
qed

lemma exportBindings_props:
  assumes "distinct (map fst T)" and "js ''__proto__'' \<notin> fst ` set T"
  shows "exportBindings T = \<lparr>proto = None, props = T\<rparr>"
  using fold_object_set[OF assms(2), of empty_object] fold_update_fresh[OF assms(1), of "[]"]
  by (simp add: exportBindings_def empty_object_def)

lemma mset_object_entries: "mset (object_entries obj) = mset (props obj)"
  by (simp add: object_entries_def)

text \<open>
  For a table that does not bind the key \<open>__proto__\<close>, the table after export and import
  holds the same pairs (array-index keys first).
\<close>

lemma roundtrip_without_proto_key:
  assumes "distinct (map fst T)" and "js ''__proto__'' \<notin> fst ` set T"
  shows "set (fst (importBindings (exportBindings T))) = set T
         \<and> distinct (map fst (fst (importBindings (exportBindings T))))
         \<and> map_of (fst (importBindings (exportBindings T))) = map_of T"
proof -
  let ?E = "object_entries \<lparr>proto = None, props = T\<rparr>"
  have m: "mset ?E = mset T" by (simp add: mset_object_entries)
  then have "mset (map fst ?E) = mset (map fst T)" by (metis mset_map)
  then have d: "distinct (map fst ?E)"
    using assms(1) by (metis mset_eq_imp_distinct_iff)
  have s: "set ?E = set T" using m by (metis set_mset_mset)
  have r: "fst (importBindings (exportBindings T)) = ?E"
    using exportBindings_props[OF assms] Map_of_entries_distinct[OF d]
    by (simp add: importBindings_def Let_def)
  have "map_of ?E = map_of T"
    using d assms(1) s by (simp add: map_of_inject_set)
  then show ?thesis using r d s by simp
qed

text \<open>
  C7. The claim: importing an exported table reproduces the table, no binding lost. The
  code at the table compiled from \<open>\bind "__proto__" "self-insert x"\<close>: the table has one
  binding; \<open>exportBindings\<close> assigns it to the key \<open>__proto__\<close> of a plain object, which
  sets the object's prototype and creates no property; the exported object has no entries
  and \<open>importBindings\<close> yields the empty table.
\<close>

theorem roundtrip_loses_proto_binding:
  "map fst (fst (parse proto_config)) = [js ''__proto__'']
   \<and> props (exportBindings (fst (parse proto_config))) = []
   \<and> proto (exportBindings (fst (parse proto_config))) = Some (snd (hd (fst (parse proto_config))))
   \<and> fst (importBindings (exportBindings (fst (parse proto_config)))) = []"
  by code_simp

section \<open>Properties of the observers\<close>

lemma elements_at_append: "r < length objs \<Longrightarrow> elements_at (objs @ extra) r = elements_at objs r"
  by (simp add: elements_at_def nth_append)

lemma elements_at_update_other:
  "r \<noteq> r' \<Longrightarrow> elements_at (objs[r' := obj]) r = elements_at objs r"
  by (simp add: elements_at_def)

lemma manager_of_after_copy:
  assumes "currentSequence_ref h < length (objects h)" and "conflicts_ref h < length (objects h)"
  shows "manager_of (h\<lparr>objects := objects h @ [new]\<rparr>) = manager_of h"
    and "manager_of (caller_mutates (length (objects h)) obj (h\<lparr>objects := objects h @ [new]\<rparr>))
           = manager_of h"
  using assms
  by (simp_all add: manager_of_def caller_mutates_def elements_at_append elements_at_update_other)

text \<open>
  C10. In every state of the manager whose two references point into the store,
  \<open>getCurrentSequence\<close> and \<open>getConflicts\<close> return a reference that is neither of the
  manager's own, to an object with the elements of the manager's array or set; the call
  leaves the manager's state as it was, and so does any mutation of the returned object
  by the caller: the pending tokens, the conflicts and every other field are the same,
  hence so is the result of every later key press.
\<close>

theorem observers_return_fresh_copies:
  assumes "currentSequence_ref h < length (objects h)" and "conflicts_ref h < length (objects h)"
  shows "fst (getCurrentSequence h) \<noteq> currentSequence_ref h
         \<and> fst (getCurrentSequence h) \<noteq> conflicts_ref h
         \<and> elements_at (objects (snd (getCurrentSequence h))) (fst (getCurrentSequence h))
             = currentSequence (manager_of h)
         \<and> manager_of (snd (getCurrentSequence h)) = manager_of h
         \<and> manager_of (caller_mutates (fst (getCurrentSequence h)) obj (snd (getCurrentSequence h)))
             = manager_of h
         \<and> handleKeyDown lc ins
             (manager_of (caller_mutates (fst (getCurrentSequence h)) obj
                            (snd (getCurrentSequence h)))) ev
             = handleKeyDown lc ins (manager_of h) ev
         \<and> fst (getConflicts h) \<noteq> currentSequence_ref h
         \<and> fst (getConflicts h) \<noteq> conflicts_ref h
         \<and> elements_at (objects (snd (getConflicts h))) (fst (getConflicts h))
             = conflicts (manager_of h)
         \<and> manager_of (snd (getConflicts h)) = manager_of h
         \<and> manager_of (caller_mutates (fst (getConflicts h)) obj (snd (getConflicts h)))
             = manager_of h
         \<and> handleKeyDown lc ins
             (manager_of (caller_mutates (fst (getConflicts h)) obj (snd (getConflicts h)))) ev
             = handleKeyDown lc ins (manager_of h) ev"
proof -
  have fresh: "length (objects h) \<noteq> currentSequence_ref h \<and> length (objects h) \<noteq> conflicts_ref h"
    using assms by auto
  have copy1: "elements_at (objects (snd (getCurrentSequence h))) (fst (getCurrentSequence h))
             = currentSequence (manager_of h)"
    by (simp add: getCurrentSequence_def manager_of_def elements_at_def)
  have copy2: "elements_at (objects (snd (getConflicts h))) (fst (getConflicts h))
             = conflicts (manager_of h)"
    by (simp add: getConflicts_def manager_of_def elements_at_def)
  have same1: "manager_of (snd (getCurrentSequence h)) = manager_of h"
    using manager_of_after_copy(1)[OF assms] by (simp add: getCurrentSequence_def)
  have same2: "manager_of (snd (getConflicts h)) = manager_of h"
    using manager_of_after_copy(1)[OF assms] by (simp add: getConflicts_def)
  have mut1: "manager_of (caller_mutates (fst (getCurrentSequence h)) obj
                            (snd (getCurrentSequence h))) = manager_of h"
    using manager_of_after_copy(2)[OF assms] by (simp add: getCurrentSequence_def)
  have mut2: "manager_of (caller_mutates (fst (getConflicts h)) obj (snd (getConflicts h)))
                = manager_of h"
    using manager_of_after_copy(2)[OF assms] by (simp add: getConflicts_def)
  have r1: "fst (getCurrentSequence h) = length (objects h)"
    by (simp add: getCurrentSequence_def)
  have r2: "fst (getConflicts h) = length (objects h)"
    by (simp add: getConflicts_def)
  show ?thesis
    unfolding mut1 mut2 using fresh copy1 copy2 same1 same2 r1 r2 by simp
qed

text \<open>
  The theorem at the scenario's pending manager: the caller empties the array it got
  from \<open>getCurrentSequence\<close>, and \<open>Alt+m\<close> is still pending in the manager.
\<close>

theorem observers_return_fresh_copies_witness:
  "currentSequence_ref scenario_heap < length (objects scenario_heap)
   \<and> conflicts_ref scenario_heap < length (objects scenario_heap)
   \<and> fst (getCurrentSequence scenario_heap) = 2
   \<and> elements_at (objects (snd (getCurrentSequence scenario_heap))) 2 = [js ''Alt+m'']
   \<and> manager_of (caller_mutates (fst (getCurrentSequence scenario_heap)) (Array_object [])
                   (snd (getCurrentSequence scenario_heap)))
       = manager_of scenario_heap
   \<and> currentSequence (manager_of scenario_heap) = [js ''Alt+m'']
   \<and> elements_at
        (objects (caller_mutates (fst (getCurrentSequence scenario_heap)) (Array_object [])
                    (snd (getCurrentSequence scenario_heap)))) 2 = []"
proof -
  have h1: "currentSequence_ref scenario_heap < length (objects scenario_heap)" by code_simp
  have h2: "conflicts_ref scenario_heap < length (objects scenario_heap)" by code_simp
  have e1: "fst (getCurrentSequence scenario_heap) = 2" by code_simp
  have e2: "elements_at (objects (snd (getCurrentSequence scenario_heap))) 2 = [js ''Alt+m'']"
    by code_simp
  have e3: "currentSequence (manager_of scenario_heap) = [js ''Alt+m'']" by code_simp
  have e4: "elements_at
        (objects (caller_mutates (fst (getCurrentSequence scenario_heap)) (Array_object [])
                    (snd (getCurrentSequence scenario_heap)))) 2 = []" by code_simp
  from observers_return_fresh_copies[OF h1 h2, of "Array_object []"]
  show ?thesis using h1 h2 e1 e2 e3 e4 by blast
qed

end
